theory Spec2Isabelle
  imports Main "HOL-Library.Char_ord" "HOL-Library.List_Lexorder"
begin

section \<open>Python values and builtins used by \<open>bot_manager.py\<close>\<close>

text \<open>
  The decoded protocol payload is a tree of Python values. The handlers of
  \<open>BotManager\<close> probe it dynamically (\<open>.get\<close>, \<open>or\<close>, \<open>isinstance\<close>, \<open>int\<close>,
  \<open>len\<close>, \<open>set\<close>), so the payload is kept untyped here as well. Dictionary keys are
  strings; a dictionary is an association list read with \<open>map_of\<close>. Floating point
  values are not part of the model.

  Strings are \<open>char list\<close>. Payload strings stand for ASCII text (protocol method names,
  tile codes such as \<open>1m\<close>), one \<open>char\<close> per character; the non-ASCII literals of the
  source (labels of the two text views) are written as their UTF-8 bytes.
\<close>

datatype json =
    JNull
  | JBool bool
  | JInt int
  | JStr string
  | JList "json list"
  | JDict "(string \<times> json) list"

text \<open>
  Exceptions. \<open>AttributeError\<close>: a method such as \<open>.get\<close> or \<open>.lower\<close> called on a value
  that has none. \<open>TypeOrValueError\<close>: the \<open>TypeError\<close> or \<open>ValueError\<close> of a builtin
  (\<open>int\<close>, \<open>len\<close>, \<open>set\<close>, slicing, subscripting, \<open>in\<close>); the two are not told apart
  because a set comprehension meets its elements in hash order. \<open>MITMException\<close> and
  \<open>MitmCertNotInstalled\<close> are the two exception classes of \<open>utils\<close> the manager
  creates itself; \<open>BotCreateError\<close> is whatever \<open>get_bot\<close> raises.
\<close>

datatype py_exn =
    AttributeError
  | TypeOrValueError
  | MITMException
  | MitmCertNotInstalled
  | BotCreateError

text \<open>
  What the source takes from outside \<open>src/\<close>: the method-name constants of
  \<open>liqi.LiqiMethod\<close>, the parser of \<open>int()\<close> for a string argument, \<open>str()\<close> of a list
  or dictionary, and the tile-to-emoji lookup
  \<open>MJAI_TILE_2_UNICODE[cvt_ms2mjai(t)]\<close> of \<open>common.mj_helper\<close> (\<open>None\<close> where it
  raises). They are parameters of every definition that needs them.
\<close>

record externals =
  checkNetworkDelay :: string
  heartbeat :: string
  routeHeartbeat :: string
  loginBeat :: string
  fetchAccountActivityData :: string
  fetchServerTime :: string
  oauth2Login :: string
  fetchAmuletActivityData :: string
  amuletActivityUpgrade :: string
  amuletActivityOperate :: string
  amuletActivityGiveup :: string
  int_of_str :: "string \<Rightarrow> int option"
  repr_of :: "json \<Rightarrow> string"
  tile_emoji :: "string \<Rightarrow> string option"

fun truthy :: "json \<Rightarrow> bool" where
  "truthy JNull = False"
| "truthy (JBool b) = b"
| "truthy (JInt i) = (i \<noteq> 0)"
| "truthy (JStr s) = (s \<noteq> [])"
| "truthy (JList xs) = (xs \<noteq> [])"
| "truthy (JDict kvs) = (kvs \<noteq> [])"

definition py_or :: "json \<Rightarrow> json \<Rightarrow> json" where
  "py_or a b = (if truthy a then a else b)"

fun is_dict :: "json \<Rightarrow> bool" where
  "is_dict (JDict kvs) = True"
| "is_dict _ = False"

fun is_list :: "json \<Rightarrow> bool" where
  "is_list (JList xs) = True"
| "is_list _ = False"

text \<open>\<open>x.get(k)\<close>: \<open>None\<close> for a missing key, \<open>AttributeError\<close> when \<open>x\<close> is no dictionary.\<close>

fun dict_get :: "json \<Rightarrow> string \<Rightarrow> py_exn + json" where
  "dict_get (JDict kvs) k = Inr (case map_of kvs k of None \<Rightarrow> JNull | Some v \<Rightarrow> v)"
| "dict_get _ k = Inl AttributeError"

text \<open>\<open>x.get(k, d)\<close>.\<close>

fun dict_get_default :: "json \<Rightarrow> string \<Rightarrow> json \<Rightarrow> py_exn + json" where
  "dict_get_default (JDict kvs) k d = Inr (case map_of kvs k of None \<Rightarrow> d | Some v \<Rightarrow> v)"
| "dict_get_default _ k d = Inl AttributeError"

text \<open>\<open>k in x\<close> for a dictionary \<open>x\<close>.\<close>

fun has_key :: "json \<Rightarrow> string \<Rightarrow> bool" where
  "has_key (JDict kvs) k = (map_of kvs k \<noteq> None)"
| "has_key _ k = False"

text \<open>\<open>x.get(k)\<close> where \<open>x\<close> is already known to be a dictionary.\<close>

fun get_field :: "json \<Rightarrow> string \<Rightarrow> json" where
  "get_field (JDict kvs) k = (case map_of kvs k of None \<Rightarrow> JNull | Some v \<Rightarrow> v)"
| "get_field _ k = JNull"

fun py_int :: "externals \<Rightarrow> json \<Rightarrow> py_exn + int" where
  "py_int ext (JInt i) = Inr i"
| "py_int ext (JBool b) = Inr (if b then 1 else 0)"
| "py_int ext (JStr s) =
     (case int_of_str ext s of None \<Rightarrow> Inl TypeOrValueError | Some i \<Rightarrow> Inr i)"
| "py_int ext _ = Inl TypeOrValueError"

fun py_len :: "json \<Rightarrow> py_exn + nat" where
  "py_len (JList xs) = Inr (length xs)"
| "py_len (JStr s) = Inr (length s)"
| "py_len (JDict kvs) = Inr (length kvs)"
| "py_len _ = Inl TypeOrValueError"

text \<open>The elements a \<open>for\<close> loop or \<open>set()\<close> draws from a value.\<close>

fun py_iter :: "json \<Rightarrow> py_exn + json list" where
  "py_iter (JList xs) = Inr xs"
| "py_iter (JStr s) = Inr (map (\<lambda>c. JStr [c]) s)"
| "py_iter (JDict kvs) = Inr (map (\<lambda>kv. JStr (fst kv)) kvs)"
| "py_iter _ = Inl TypeOrValueError"

fun hashable :: "json \<Rightarrow> bool" where
  "hashable (JList xs) = False"
| "hashable (JDict kvs) = False"
| "hashable _ = True"

text \<open>\<open>[int(x) for x in xs]\<close>, stopping at the first element \<open>int\<close> rejects.\<close>

fun ints_of :: "externals \<Rightarrow> json list \<Rightarrow> py_exn + int list" where
  "ints_of ext [] = Inr []"
| "ints_of ext (x # xs) =
     (case py_int ext x of
        Inl e \<Rightarrow> Inl e
      | Inr i \<Rightarrow> (case ints_of ext xs of Inl e \<Rightarrow> Inl e | Inr is \<Rightarrow> Inr (i # is)))"

text \<open>\<open>{int(x) for x in set(v)}\<close>: \<open>set(v)\<close> needs an iterable of hashable elements.\<close>

definition int_set_of :: "externals \<Rightarrow> json \<Rightarrow> py_exn + int set" where
  "int_set_of ext v =
     (case py_iter v of
        Inl e \<Rightarrow> Inl e
      | Inr xs \<Rightarrow>
          if \<not> list_all hashable xs then Inl TypeOrValueError
          else (case ints_of ext xs of Inl e \<Rightarrow> Inl e | Inr is \<Rightarrow> Inr (set is)))"

section \<open>The state of \<open>BotManager\<close>\<close>

text \<open>The dictionary \<open>_amulet_info\<close>; its four keys are fixed by \<open>__init__\<close>.\<close>

record amulet_info =
  stage :: json
  hands :: json
  desktop_remain :: json
  ended :: bool

text \<open>
  Calls to collaborators, in the order they are made. Each entry keeps the two flow ids
  as they are at the moment of the call.
\<close>

datatype callback =
    OnLobbyLogin
  | OnExitLobby
  | OnEndGame
  | AutomateRetryPending
  | DecideLobbyAction

record call =
  callee :: callback
  lobby_at_call :: "string option"
  game_at_call :: "string option"

record bot_manager =
  game_state :: bool
  bot :: bool
  lobby_flow_id :: "string option"
  game_flow_id :: "string option"
  bot_need_update :: bool
  mitm_proxinject_need_update :: bool
  is_loading_bot :: bool
  main_thread_exception :: "py_exn option"
  game_exception :: "py_exn option"
  amulet_active :: bool
  amulet_info :: amulet_info
  amulet_pending_action :: "json option"
  amulet_pool :: json
  amulet_draw_ids :: "int list"
  amulet_used_ids :: "int set"
  amulet_desktop_remain :: int
  amulet_replace_ids :: "int list"
  amulet_replace_cursor :: int
  calls :: "call list"

text \<open>
  \<open>__init__\<close>. \<open>game_state\<close> and \<open>bot\<close> record whether the attribute holds an object;
  \<open>amulet_pool = JNull\<close> is \<open>None\<close>.
\<close>

definition init_info :: amulet_info where
  "init_info = \<lparr>stage = JInt 0, hands = JList [], desktop_remain = JInt 0, ended = False\<rparr>"

definition init :: bot_manager where
  "init = \<lparr>game_state = False, bot = False, lobby_flow_id = None, game_flow_id = None,
      bot_need_update = True, mitm_proxinject_need_update = False, is_loading_bot = False,
      main_thread_exception = None, game_exception = None,
      amulet_active = False, amulet_info = init_info, amulet_pending_action = None,
      amulet_pool = JNull, amulet_draw_ids = [], amulet_used_ids = {},
      amulet_desktop_remain = 0, amulet_replace_ids = [], amulet_replace_cursor = 0,
      calls = []\<rparr>"

text \<open>
  A method either returns or raises; what it assigned before raising stays assigned.
\<close>

datatype outcome = Done bot_manager | Raised py_exn bot_manager

fun state_of :: "outcome \<Rightarrow> bot_manager" where
  "state_of (Done s) = s"
| "state_of (Raised e s) = s"

fun returns :: "outcome \<Rightarrow> bool" where
  "returns (Done s) = True"
| "returns (Raised e s) = False"

section \<open>The pool (re)set routine\<close>

text \<open>\<open>pool[:]\<close>: a copy of a list (or string); anything else cannot be sliced.\<close>

fun copy_all :: "json \<Rightarrow> py_exn + json" where
  "copy_all (JList xs) = Inr (JList xs)"
| "copy_all (JStr s) = Inr (JStr s)"
| "copy_all _ = Inl TypeOrValueError"

text \<open>The elements of \<open>p[a:b]\<close> for \<open>a \<le> b\<close>, as the comprehension iterates them.\<close>

fun slice_items :: "nat \<Rightarrow> nat \<Rightarrow> json \<Rightarrow> json list" where
  "slice_items a b (JList xs) = take (b - a) (drop a xs)"
| "slice_items a b (JStr s) = map (\<lambda>c. JStr [c]) (take (b - a) (drop a s))"
| "slice_items a b _ = []"

text \<open>\<open>[int(x.get("id")) for x in sl if isinstance(x, dict) and "id" in x]\<close>.\<close>

fun slice_ids :: "externals \<Rightarrow> json list \<Rightarrow> py_exn + int list" where
  "slice_ids ext [] = Inr []"
| "slice_ids ext (x # xs) =
     (if is_dict x \<and> has_key x ''id'' then
        (case py_int ext (get_field x ''id'') of
           Inl e \<Rightarrow> Inl e
         | Inr i \<Rightarrow> (case slice_ids ext xs of Inl e \<Rightarrow> Inl e | Inr is \<Rightarrow> Inr (i # is)))
      else slice_ids ext xs)"

definition amulet_set_pool_from_array :: "externals \<Rightarrow> bot_manager \<Rightarrow> json \<Rightarrow> outcome" where
  "amulet_set_pool_from_array ext s pool =
     (case copy_all pool of
        Inl e \<Rightarrow> Raised e s
      | Inr p \<Rightarrow>
          let s1 = s\<lparr>amulet_pool := p\<rparr> in
          (case slice_ids ext (slice_items 23 59 p) of
             Inl e \<Rightarrow> Raised e s1
           | Inr d \<Rightarrow>
               let s2 = s1\<lparr>amulet_draw_ids := d\<rparr> in
               (case slice_ids ext (slice_items 59 108 p) of
                  Inl e \<Rightarrow> Raised e s2
                | Inr r \<Rightarrow>
                    Done (s2\<lparr>amulet_replace_ids := r, amulet_used_ids := {},
                             amulet_desktop_remain := 36, amulet_replace_cursor := 0\<rparr>))))"

section \<open>The snapshot handler\<close>

text \<open>
  The \<open>try\<close> block of \<open>_amulet_on_fetch_data\<close> that refreshes \<open>_amulet_info\<close>. An
  exception inside it is swallowed (\<open>except Exception: pass\<close>); the keys assigned before
  it stay assigned.
\<close>

definition fetch_info :: "externals \<Rightarrow> amulet_info \<Rightarrow> json \<Rightarrow> amulet_info" where
  "fetch_info ext info liqi_data =
     (case dict_get_default liqi_data ''data'' (JDict []) of
        Inl e \<Rightarrow> info
      | Inr d \<Rightarrow>
     (case dict_get_default d ''game'' (JDict []) of
        Inl e \<Rightarrow> info
      | Inr game_obj \<Rightarrow>
     (case dict_get game_obj ''round'' of
        Inl e \<Rightarrow> info
      | Inr r \<Rightarrow>
          let round_obj2 = py_or r (JDict []) in
     (case py_int ext (py_or (get_field game_obj ''stage'') (JInt 0)) of
        Inl e \<Rightarrow> info
      | Inr st \<Rightarrow>
          let info1 = info\<lparr>stage := JInt st\<rparr>;
              info2 = info1\<lparr>ended := truthy (py_or (get_field game_obj ''ended'') (JBool False))\<rparr>
          in
     (case dict_get round_obj2 ''hands'' of
        Inl e \<Rightarrow> info2
      | Inr h \<Rightarrow>
          let hands_init = py_or h (JList []);
              info3 = (if is_list hands_init then info2\<lparr>hands := hands_init\<rparr> else info2)
          in
          if has_key round_obj2 ''desktopRemain'' then
            (case py_int ext (py_or (get_field round_obj2 ''desktopRemain'') (JInt 0)) of
               Inl e \<Rightarrow> info3
             | Inr dr \<Rightarrow> info3\<lparr>desktop_remain := JInt dr\<rparr>)
          else info3)))))"

definition amulet_on_fetch_data :: "externals \<Rightarrow> bot_manager \<Rightarrow> json \<Rightarrow> outcome" where
  "amulet_on_fetch_data ext s liqi_data =
     (case dict_get liqi_data ''data'' of
        Inl e \<Rightarrow> Raised e s
      | Inr d \<Rightarrow>
     (case dict_get (py_or d (JDict [])) ''game'' of
        Inl e \<Rightarrow> Raised e s
      | Inr game \<Rightarrow>
          if \<not> truthy game then Done s
          else
     (case dict_get game ''round'' of
        Inl e \<Rightarrow> Raised e s
      | Inr r \<Rightarrow>
          let round_obj = py_or r (JDict []) in
     (case dict_get round_obj ''pool'' of
        Inl e \<Rightarrow> Raised e s
      | Inr p \<Rightarrow>
          let pool = py_or p (JList []) in
     (case (if truthy pool then amulet_set_pool_from_array ext s pool else Done s) of
        Raised e s1 \<Rightarrow> Raised e s1
      | Done s1 \<Rightarrow>
          let s2 = s1\<lparr>amulet_info := fetch_info ext (amulet_info s1) liqi_data\<rparr> in
     (case int_set_of ext (py_or (get_field round_obj ''usedDesktop'') (JList [])) of
        Inl e \<Rightarrow> Raised e s2
      | Inr u \<Rightarrow>
          let s3 = s2\<lparr>amulet_used_ids := u\<rparr> in
     (case py_int ext (py_or (get_field round_obj ''desktopRemain'') (JInt 0)) of
        Inl e \<Rightarrow> Raised e s3
      | Inr n \<Rightarrow>
          let s4 = s3\<lparr>amulet_desktop_remain := n\<rparr> in
          (case py_or (get_field round_obj ''used'') (JList []) of
             JList used_replace \<Rightarrow> Done (s4\<lparr>amulet_replace_cursor := int (length used_replace)\<rparr>)
           | _ \<Rightarrow> Done s4))))))))"

section \<open>The event handlers\<close>

text \<open>A \<open>for\<close> loop over events: the first event whose body raises ends the loop.\<close>

fun for_events :: "(bot_manager \<Rightarrow> json \<Rightarrow> outcome) \<Rightarrow> bot_manager \<Rightarrow> json list \<Rightarrow> outcome" where
  "for_events body s [] = Done s"
| "for_events body s (ev # evs) =
     (case body s ev of
        Raised e s1 \<Rightarrow> Raised e s1
      | Done s1 \<Rightarrow> for_events body s1 evs)"

text \<open>
  \<open>dr = rd.get("desktopRemain")\<close>; a dirty-flagged value overwrites
  \<open>_amulet_desktop_remain\<close>. Here \<open>rd\<close> is a dictionary already. The same lines stand
  in the upgrade and in the operate handler.
\<close>

definition dirty_desktop_remain :: "externals \<Rightarrow> bot_manager \<Rightarrow> json \<Rightarrow> outcome" where
  "dirty_desktop_remain ext s rd =
     (let dr = get_field rd ''desktopRemain'' in
      if is_dict dr \<and> truthy (get_field dr ''dirty'') then
        (case py_int ext (py_or (get_field dr ''value'') (JInt 0)) of
           Inl e \<Rightarrow> Raised e s
         | Inr n \<Rightarrow> Done (s\<lparr>amulet_desktop_remain := n\<rparr>))
      else Done s)"

text \<open>
  \<open>used_rep = rd.get("used")\<close>; a dirty-flagged value sets the cursor to its length;
  a value without a length is skipped (\<open>except Exception: pass\<close>).
\<close>

definition dirty_replace_cursor :: "bot_manager \<Rightarrow> json \<Rightarrow> bot_manager" where
  "dirty_replace_cursor s rd =
     (let used_rep = get_field rd ''used'' in
      if is_dict used_rep \<and> truthy (get_field used_rep ''dirty'') then
        (case py_len (py_or (get_field used_rep ''value'') (JList [])) of
           Inl e \<Rightarrow> s
         | Inr n \<Rightarrow> s\<lparr>amulet_replace_cursor := int n\<rparr>)
      else s)"

text \<open>One pass of the loop of \<open>_amulet_on_upgrade_events\<close>.\<close>

definition upgrade_event :: "externals \<Rightarrow> bot_manager \<Rightarrow> json \<Rightarrow> outcome" where
  "upgrade_event ext s ev =
     (case dict_get ev ''valueChanges'' of
        Inl e \<Rightarrow> Raised e s
      | Inr v \<Rightarrow>
     (case dict_get (py_or v (JDict [])) ''round'' of
        Inl e \<Rightarrow> Raised e s
      | Inr r \<Rightarrow>
          let rd = py_or r (JDict []) in
     (case dict_get rd ''pool'' of
        Inl e \<Rightarrow> Raised e s
      | Inr p \<Rightarrow>
          let pool = py_or p (JDict []) in
     (case (if is_dict pool \<and> truthy (get_field pool ''dirty'') \<and> is_list (get_field pool ''value'')
            then amulet_set_pool_from_array ext s (get_field pool ''value'')
            else Done s) of
        Raised e s1 \<Rightarrow> Raised e s1
      | Done s1 \<Rightarrow>
     (case dirty_desktop_remain ext s1 rd of
        Raised e s2 \<Rightarrow> Raised e s2
      | Done s2 \<Rightarrow> Done (dirty_replace_cursor s2 rd))))))"

text \<open>One pass of the loop of \<open>_amulet_on_operate_events\<close>.\<close>

definition operate_event :: "externals \<Rightarrow> bot_manager \<Rightarrow> json \<Rightarrow> outcome" where
  "operate_event ext s ev =
     (case dict_get ev ''valueChanges'' of
        Inl e \<Rightarrow> Raised e s
      | Inr v \<Rightarrow>
     (case dict_get (py_or v (JDict [])) ''round'' of
        Inl e \<Rightarrow> Raised e s
      | Inr r \<Rightarrow>
          let rd = py_or r (JDict []) in
     (case dict_get rd ''usedDesktop'' of
        Inl e \<Rightarrow> Raised e s
      | Inr used \<Rightarrow>
     (case (if is_dict used \<and> truthy (get_field used ''dirty'') then
              (case py_iter (py_or (get_field used ''value'') (JList [])) of
                 Inl e \<Rightarrow> Raised e s
               | Inr vals \<Rightarrow>
                   (case ints_of ext vals of
                      Inl e \<Rightarrow> Raised e s
                    | Inr is \<Rightarrow> Done (s\<lparr>amulet_used_ids := set is\<rparr>)))
            else Done s) of
        Raised e s1 \<Rightarrow> Raised e s1
      | Done s1 \<Rightarrow>
     (case dirty_desktop_remain ext s1 rd of
        Raised e s2 \<Rightarrow> Raised e s2
      | Done s2 \<Rightarrow> Done (dirty_replace_cursor s2 rd))))))"

text \<open>\<open>sub in s\<close> for strings.\<close>

fun py_in_str :: "string \<Rightarrow> string \<Rightarrow> bool" where
  "py_in_str sub [] = (sub = [])"
| "py_in_str sub (c # cs) = (take (length sub) (c # cs) = sub \<or> py_in_str sub cs)"

text \<open>\<open>k in vc\<close> for a string \<open>k\<close> and any value \<open>vc\<close>.\<close>

fun py_in :: "string \<Rightarrow> json \<Rightarrow> py_exn + bool" where
  "py_in k (JDict kvs) = Inr (map_of kvs k \<noteq> None)"
| "py_in k (JList xs) = Inr (JStr k \<in> set xs)"
| "py_in k (JStr s) = Inr (py_in_str k s)"
| "py_in k _ = Inl TypeOrValueError"

text \<open>\<open>vc[k]\<close> for a string \<open>k\<close>: only a dictionary holding \<open>k\<close> has it.\<close>

fun py_subscript :: "json \<Rightarrow> string \<Rightarrow> py_exn + json" where
  "py_subscript (JDict kvs) k =
     (case map_of kvs k of None \<Rightarrow> Inl TypeOrValueError | Some v \<Rightarrow> Inr v)"
| "py_subscript _ k = Inl TypeOrValueError"

fun get_field_default :: "json \<Rightarrow> string \<Rightarrow> json \<Rightarrow> json" where
  "get_field_default (JDict kvs) k d = (case map_of kvs k of None \<Rightarrow> d | Some v \<Rightarrow> v)"
| "get_field_default _ k d = d"

text \<open>One pass of the loop of \<open>_amulet_update_from_events\<close>.\<close>

definition update_event :: "bot_manager \<Rightarrow> json \<Rightarrow> outcome" where
  "update_event s ev =
     (case dict_get_default ev ''valueChanges'' (JDict []) of
        Inl e \<Rightarrow> Raised e s
      | Inr v \<Rightarrow>
          let vc = py_or v (JDict []) in
     (case py_in ''stage'' vc of
        Inl e \<Rightarrow> Raised e s
      | Inr has_stage \<Rightarrow>
     (case (if has_stage then
              (case py_subscript vc ''stage'' of
                 Inl e \<Rightarrow> Raised e s
               | Inr x \<Rightarrow> Done (s\<lparr>amulet_info := (amulet_info s)\<lparr>stage := x\<rparr>\<rparr>))
            else Done s) of
        Raised e s1 \<Rightarrow> Raised e s1
      | Done s1 \<Rightarrow>
     (case dict_get vc ''round'' of
        Inl e \<Rightarrow> Raised e s1
      | Inr r \<Rightarrow>
          let rd = py_or r (JDict []) in
     (case dict_get rd ''hands'' of
        Inl e \<Rightarrow> Raised e s1
      | Inr h \<Rightarrow>
          let s2 = (if is_dict h \<and> truthy (get_field h ''dirty'')
                    then s1\<lparr>amulet_info :=
                           (amulet_info s1)\<lparr>hands := py_or (get_field h ''value'') (JList [])\<rparr>\<rparr>
                    else s1);
              dr = get_field rd ''desktopRemain'';
              s3 = (if is_dict dr \<and> truthy (get_field dr ''dirty'')
                    then s2\<lparr>amulet_info :=
                           (amulet_info s2)\<lparr>desktop_remain := get_field_default dr ''value'' (JInt 0)\<rparr>\<rparr>
                    else s2)
          in
          Done (if has_key vc ''ended''
                then s3\<lparr>amulet_info := (amulet_info s3)\<lparr>ended := truthy (get_field vc ''ended'')\<rparr>\<rparr>
                else s3))))))"

definition amulet_update_from_events :: "bot_manager \<Rightarrow> json \<Rightarrow> outcome" where
  "amulet_update_from_events s events =
     (case py_iter events of
        Inl e \<Rightarrow> Raised e s
      | Inr evs \<Rightarrow> for_events update_event s evs)"

text \<open>
  The two batch handlers: the loop, then \<open>_amulet_update_from_events\<close> inside
  \<open>try ... except Exception: pass\<close>.
\<close>

definition amulet_on_upgrade_events :: "externals \<Rightarrow> bot_manager \<Rightarrow> json \<Rightarrow> outcome" where
  "amulet_on_upgrade_events ext s events =
     (case py_iter events of
        Inl e \<Rightarrow> Raised e s
      | Inr evs \<Rightarrow>
          (case for_events (upgrade_event ext) s evs of
             Raised e s1 \<Rightarrow> Raised e s1
           | Done s1 \<Rightarrow> Done (state_of (amulet_update_from_events s1 events))))"

definition amulet_on_operate_events :: "externals \<Rightarrow> bot_manager \<Rightarrow> json \<Rightarrow> outcome" where
  "amulet_on_operate_events ext s events =
     (case py_iter events of
        Inl e \<Rightarrow> Raised e s
      | Inr evs \<Rightarrow>
          (case for_events (operate_event ext) s evs of
             Raised e s1 \<Rightarrow> Raised e s1
           | Done s1 \<Rightarrow> Done (state_of (amulet_update_from_events s1 events))))"

section \<open>Message routing\<close>

datatype ws_type = START | END | MESSAGE

datatype msg_type = Notify | Req | Res

text \<open>
  What \<open>liqi_parser.parse\<close> returns: the dictionary with the keys \<open>id\<close>, \<open>type\<close>,
  \<open>method\<close> and \<open>data\<close>.
\<close>

record liqi_msg =
  msg_id :: json
  msg_type :: msg_type
  liqi_method :: string
  data :: json

text \<open>
  A frame of \<open>mitm.WSMessage\<close>, together with what the parser makes of its content
  (\<open>None\<close> where \<open>parse\<close> raises; only read for a \<open>MESSAGE\<close> frame).
\<close>

record ws_message =
  ws_type :: ws_type
  flow_id :: string
  parsed :: "liqi_msg option"

definition METHODS_TO_IGNORE :: "externals \<Rightarrow> string list" where
  "METHODS_TO_IGNORE ext =
     [checkNetworkDelay ext, heartbeat ext, routeHeartbeat ext, loginBeat ext,
      fetchAccountActivityData ext, fetchServerTime ext, oauth2Login ext]"

definition lower_char :: "char \<Rightarrow> char" where
  "lower_char c =
     (if CHR ''A'' \<le> c \<and> c \<le> CHR ''Z'' then char_of (of_char c + (32::nat)) else c)"

definition lower :: "string \<Rightarrow> string" where
  "lower s = map lower_char s"

definition log_call :: "callback \<Rightarrow> bot_manager \<Rightarrow> bot_manager" where
  "log_call cb s =
     s\<lparr>calls := calls s @
          [\<lparr>callee = cb, lobby_at_call = lobby_flow_id s, game_at_call = game_flow_id s\<rparr>]\<rparr>"

text \<open>\<open>_process_end_game\<close> (clearing the overlay touches the browser only).\<close>

definition process_end_game :: "bot_manager \<Rightarrow> bot_manager" where
  "process_end_game s = log_call OnEndGame (s\<lparr>game_state := False, game_exception := None\<rparr>)"

text \<open>The branch for \<open>amuletActivityGiveup\<close>.\<close>

definition amulet_giveup :: "bot_manager \<Rightarrow> bot_manager" where
  "amulet_giveup s =
     s\<lparr>amulet_active := False, amulet_pool := JNull, amulet_draw_ids := [],
       amulet_used_ids := {}, amulet_desktop_remain := 0, amulet_replace_ids := [],
       amulet_replace_cursor := 0,
       amulet_info := (amulet_info s)\<lparr>stage := JInt 0, hands := JList [],
                                      desktop_remain := JInt 0, ended := False\<rparr>\<rparr>"

text \<open>The branch \<open>elif 'amulet' in liqi_method.lower()\<close>.\<close>

definition process_amulet_msg :: "externals \<Rightarrow> bot_manager \<Rightarrow> liqi_msg \<Rightarrow> outcome" where
  "process_amulet_msg ext s m =
     (if msg_type m \<noteq> Res then Done s
      else if liqi_method m = fetchAmuletActivityData ext then
        amulet_on_fetch_data ext (s\<lparr>amulet_active := True\<rparr>) (data m)
      else if liqi_method m = amuletActivityUpgrade ext then
        (let s1 = s\<lparr>amulet_active := True\<rparr> in
         case dict_get (data m) ''events'' of
           Inl e \<Rightarrow> Raised e s1
         | Inr evs \<Rightarrow> amulet_on_upgrade_events ext s1 (py_or evs (JList [])))
      else if liqi_method m = amuletActivityOperate ext then
        (let s1 = s\<lparr>amulet_active := True\<rparr> in
         case dict_get (data m) ''events'' of
           Inl e \<Rightarrow> Raised e s1
         | Inr evs \<Rightarrow> amulet_on_operate_events ext s1 (py_or evs (JList [])))
      else if liqi_method m = amuletActivityGiveup ext then Done (amulet_giveup s)
      else Done s)"

definition process_msg :: "externals \<Rightarrow> bot_manager \<Rightarrow> ws_message \<Rightarrow> outcome" where
  "process_msg ext s msg =
     (case ws_type msg of
        START \<Rightarrow> Done s
      | END \<Rightarrow>
          let s1 = (if game_flow_id s = Some (flow_id msg)
                    then (process_end_game s)\<lparr>game_flow_id := None\<rparr>
                    else s);
              s2 = (if lobby_flow_id s1 = Some (flow_id msg)
                    then log_call OnExitLobby (s1\<lparr>lobby_flow_id := None\<rparr>)
                    else s1)
          in Done s2
      | MESSAGE \<Rightarrow>
          (case parsed msg of
             None \<Rightarrow> Done s
           | Some m \<Rightarrow>
               if liqi_method m \<in> set (METHODS_TO_IGNORE ext) then Done s
               else if (msg_type m, liqi_method m) = (Res, oauth2Login ext) then
                 (if lobby_flow_id s = None
                  then Done (log_call OnLobbyLogin (s\<lparr>lobby_flow_id := Some (flow_id msg)\<rparr>))
                  else Done s)
               else if py_in_str ''amulet'' (lower (liqi_method m)) then process_amulet_msg ext s m
               else Done s))"

section \<open>The main loop\<close>

text \<open>
  What one iteration of \<open>_run\<close> learns from the collaborators: whether \<open>get_bot\<close>
  returns, whether the browser runs, whether the certificate is installed, whether the
  interception server runs.
\<close>

record observations =
  get_bot_ok :: bool
  browser_is_running :: bool
  mitm_cert_installed :: bool
  mitm_is_running :: bool

definition set_bot_update :: "bot_manager \<Rightarrow> bot_manager" where
  "set_bot_update s = s\<lparr>bot_need_update := True\<rparr>"

definition is_in_game :: "bot_manager \<Rightarrow> bool" where
  "is_in_game s = game_state s"

definition create_bot :: "observations \<Rightarrow> bot_manager \<Rightarrow> bot_manager" where
  "create_bot obs s =
     (if get_bot_ok obs
      then s\<lparr>bot := True, game_exception := None, is_loading_bot := False\<rparr>
      else s\<lparr>bot := False, game_exception := Some BotCreateError, is_loading_bot := False\<rparr>)"

definition create_mitm_and_proxinject :: "observations \<Rightarrow> bot_manager \<Rightarrow> bot_manager" where
  "create_mitm_and_proxinject obs s =
     (if \<not> mitm_cert_installed obs
      then s\<lparr>main_thread_exception := Some MitmCertNotInstalled\<rparr>
      else s)"

definition loop_pre_msg :: "observations \<Rightarrow> bot_manager \<Rightarrow> bot_manager" where
  "loop_pre_msg obs s =
     (let s1 = (if bot_need_update s \<and> \<not> is_in_game s
                then (create_bot obs s)\<lparr>bot_need_update := False\<rparr>
                else s)
      in if mitm_proxinject_need_update s1 \<and> \<not> browser_is_running obs
         then (create_mitm_and_proxinject obs s1)\<lparr>mitm_proxinject_need_update := False\<rparr>
         else s1)"

definition loop_post_msg :: "observations \<Rightarrow> bot_manager \<Rightarrow> bot_manager" where
  "loop_post_msg obs s =
     (let s1 = (if \<not> mitm_is_running obs then s\<lparr>game_exception := Some MITMException\<rparr>
                else if game_exception s = Some MITMException then s\<lparr>game_exception := None\<rparr>
                else s);
          s2 = log_call AutomateRetryPending s1
      in if game_exception s2 = None then log_call DecideLobbyAction s2 else s2)"

text \<open>
  The body of the \<open>while\<close> loop: \<open>frame = None\<close> is \<open>queue.Empty\<close>; any other exception
  of \<open>_process_msg\<close> becomes the game error.
\<close>

definition iteration ::
  "externals \<Rightarrow> observations \<Rightarrow> bot_manager \<Rightarrow> ws_message option \<Rightarrow> bot_manager" where
  "iteration ext obs s frame =
     (let s1 = loop_pre_msg obs s;
          s2 = (case frame of
                  None \<Rightarrow> s1
                | Some msg \<Rightarrow>
                    (case process_msg ext s1 msg of
                       Done s' \<Rightarrow> s'
                     | Raised e s' \<Rightarrow> s'\<lparr>game_exception := Some e\<rparr>))
      in loop_post_msg obs s2)"

text \<open>The states the manager can be in: after \<open>__init__\<close>, after any run of the loop.\<close>

inductive reachable :: "externals \<Rightarrow> bot_manager \<Rightarrow> bool" for ext :: externals where
  reach_init: "reachable ext init"
| reach_iteration: "reachable ext s \<Longrightarrow> reachable ext (iteration ext obs s frame)"
| reach_set_bot_update: "reachable ext s \<Longrightarrow> reachable ext (set_bot_update s)"

section \<open>The text views and the queries\<close>

text \<open>Decimal digits of a number, as an f-string prints it.\<close>

function show_nat :: "nat \<Rightarrow> string" where
  "show_nat n =
     (if n < 10 then [char_of (48 + n)]
      else show_nat (n div 10) @ [char_of (48 + n mod 10)])"
  by pat_completeness auto
termination
  by (relation "measure (\<lambda>n. n)") auto

definition show_int :: "int \<Rightarrow> string" where
  "show_int i = (if i < 0 then CHR ''-'' # show_nat (nat (- i)) else show_nat (nat i))"

text \<open>\<open>str(v)\<close>.\<close>

fun py_str :: "externals \<Rightarrow> json \<Rightarrow> string" where
  "py_str ext (JStr s) = s"
| "py_str ext (JInt i) = show_int i"
| "py_str ext (JBool b) = (if b then ''True'' else ''False'')"
| "py_str ext JNull = ''None''"
| "py_str ext v = repr_of ext v"

text \<open>\<open>sep.join(xs)\<close>.\<close>

fun str_join :: "string \<Rightarrow> string list \<Rightarrow> string" where
  "str_join sep [] = []"
| "str_join sep [x] = x"
| "str_join sep (x # y # ys) = x @ sep @ str_join sep (y # ys)"

text \<open>
  One pass of the loop that fills \<open>id2tile\<close>: \<open>id2tile[int(obj["id"])] = str(obj["tile"])\<close>,
  skipped (\<open>continue\<close>) when a subscript or \<open>int\<close> raises.
\<close>

definition id2tile_entry :: "externals \<Rightarrow> json \<Rightarrow> (int \<times> string) option" where
  "id2tile_entry ext obj =
     (case py_subscript obj ''tile'' of
        Inl e \<Rightarrow> None
      | Inr tn \<Rightarrow>
          (case py_subscript obj ''id'' of
             Inl e \<Rightarrow> None
           | Inr i \<Rightarrow>
               (case py_int ext i of
                  Inl e \<Rightarrow> None
                | Inr n \<Rightarrow> Some (n, py_str ext tn))))"

fun build_id2tile :: "externals \<Rightarrow> json list \<Rightarrow> (int \<rightharpoonup> string) \<Rightarrow> (int \<rightharpoonup> string)" where
  "build_id2tile ext [] m = m"
| "build_id2tile ext (obj # objs) m =
     build_id2tile ext objs
       (case id2tile_entry ext obj of None \<Rightarrow> m | Some (i, tn) \<Rightarrow> m(i \<mapsto> tn))"

text \<open>\<open>id2tile.get(pid, "?")\<close>.\<close>

definition tile_of :: "(int \<rightharpoonup> string) \<Rightarrow> int \<Rightarrow> string" where
  "tile_of id2tile pid = (case id2tile pid of None \<Rightarrow> ''?'' | Some tn \<Rightarrow> tn)"

text \<open>\<open>_as_emoji\<close>: the emoji of a tile, the tile's own text where the lookup raises.\<close>

definition as_emoji :: "externals \<Rightarrow> string \<Rightarrow> string" where
  "as_emoji ext ms_tile = (case tile_emoji ext ms_tile of None \<Rightarrow> ms_tile | Some e \<Rightarrow> e)"

text \<open>The \<open>while\<close> loop of \<open>_chunk_by9_tail_first\<close>, from position \<open>i\<close> on.\<close>

function chunk_loop :: "'a list \<Rightarrow> nat \<Rightarrow> 'a list list" where
  "chunk_loop seq i =
     (if i < length seq then take 9 (drop i seq) # chunk_loop seq (i + 9) else [])"
  by pat_completeness auto
termination
  by (relation "measure (\<lambda>(seq, i). length seq - i)") auto

definition chunk_by9_tail_first :: "'a list \<Rightarrow> 'a list list" where
  "chunk_by9_tail_first seq =
     (let n = length seq; r = n mod 9
      in if r \<noteq> 0 then take r seq # chunk_loop seq r else chunk_loop seq 0)"

text \<open>
  \<open>Counter(xs).items()\<close>: each distinct element with the number of its occurrences, in
  the order of first occurrence.
\<close>

fun counter_add :: "string \<Rightarrow> (string \<times> nat) list \<Rightarrow> (string \<times> nat) list" where
  "counter_add k [] = [(k, 1)]"
| "counter_add k ((k', n) # rest) =
     (if k = k' then (k', n + 1) # rest else (k', n) # counter_add k rest)"

definition counter :: "string list \<Rightarrow> (string \<times> nat) list" where
  "counter xs = foldl (\<lambda>c k. counter_add k c) [] xs"

text \<open>The source's literals, non-ASCII characters as UTF-8 bytes.\<close>

definition label_drawable :: string where
  "label_drawable =
     [CHR ''['', CHR 0xE5, CHR 0x8F, CHR 0xAF, CHR 0xE6, CHR 0x91, CHR 0xB8,
      CHR 0xE5, CHR 0x89, CHR 0xA9, CHR 0xE4, CHR 0xBD, CHR 0x99, CHR '' '']"

definition label_replace :: string where
  "label_replace =
     [CHR ''['', CHR 0xE5, CHR 0xBE, CHR 0x85, CHR 0xE6, CHR 0x9B, CHR 0xBF,
      CHR 0xE6, CHR 0x8D, CHR 0xA2, CHR '' '']"

definition cursor_bar :: string where
  "cursor_bar = [CHR 0xEF, CHR 0xBD, CHR 0x9C]"

definition times_sign :: string where
  "times_sign = [CHR 0xC3, CHR 0x97]"

definition newline :: string where
  "newline = [CHR 0x0A]"

text \<open>The remaining count: \<open>max(0, min(int(remain or 0), len(draw_ids)))\<close>.\<close>

definition drawable_remain :: "bot_manager \<Rightarrow> nat" where
  "drawable_remain s =
     nat (max 0 (min (amulet_desktop_remain s) (int (length (amulet_draw_ids s)))))"

text \<open>The tiles of the last \<open>remain\<close> ids of the draw segment.\<close>

definition remain_tiles :: "externals \<Rightarrow> bot_manager \<Rightarrow> json list \<Rightarrow> string list" where
  "remain_tiles ext s objs =
     (let id2tile = build_id2tile ext objs Map.empty;
          remain = drawable_remain s;
          remain_ids = drop (length (amulet_draw_ids s) - remain) (amulet_draw_ids s)
      in map (tile_of id2tile) remain_ids)"

definition stat_line :: "externals \<Rightarrow> string list \<Rightarrow> string" where
  "stat_line ext tiles =
     str_join '' ''
       (map (\<lambda>(tn, n). as_emoji ext tn @ times_sign @ show_nat n)
            (sort_key fst (counter tiles)))"

definition get_amulet_drawable_text :: "externals \<Rightarrow> bot_manager \<Rightarrow> py_exn + string" where
  "get_amulet_drawable_text ext s =
     (if \<not> (amulet_active s \<and> truthy (amulet_pool s) \<and> amulet_draw_ids s \<noteq> []) then Inr []
      else
        (case py_iter (amulet_pool s) of
           Inl e \<Rightarrow> Inl e
         | Inr objs \<Rightarrow>
             let remain = drawable_remain s in
             if remain = 0 then Inr (label_drawable @ ''0/36]'')
             else
               let tiles = remain_tiles ext s objs;
                   rows = chunk_by9_tail_first tiles;
                   line_strs = map (\<lambda>row. str_join '' '' (map (as_emoji ext) row)) rows;
                   header = label_drawable @ show_nat remain @ ''/36]''
               in Inr (str_join newline ([header] @ line_strs @ [stat_line ext tiles]))))"

text \<open>The cursor as the replace view shows it: not below 0, not beyond the queue.\<close>

definition shown_cursor :: "bot_manager \<Rightarrow> nat" where
  "shown_cursor s =
     (let cur = amulet_replace_cursor s;
          cur1 = (if cur < 0 then 0 else cur);
          cur2 = (if cur1 > int (length (amulet_replace_ids s))
                  then int (length (amulet_replace_ids s)) else cur1)
      in nat cur2)"

definition get_amulet_replace_text :: "externals \<Rightarrow> bot_manager \<Rightarrow> py_exn + string" where
  "get_amulet_replace_text ext s =
     (if \<not> (amulet_active s \<and> truthy (amulet_pool s) \<and> amulet_replace_ids s \<noteq> []) then Inr []
      else
        let stg = (case py_int ext (stage (amulet_info s)) of Inl e \<Rightarrow> 0 | Inr i \<Rightarrow> i) in
        if stg \<noteq> 2 then Inr []
        else
          (case py_iter (amulet_pool s) of
             Inl e \<Rightarrow> Inl e
           | Inr objs \<Rightarrow>
               let id2tile = build_id2tile ext objs Map.empty;
                   tiles = map (tile_of id2tile) (amulet_replace_ids s);
                   emojis = map (as_emoji ext) tiles;
                   cur = shown_cursor s;
                   seq = take cur emojis @ [cursor_bar] @ drop cur emojis;
                   text_line = str_join '' '' seq;
                   header = label_replace @ show_nat cur @ ''/'' @ show_nat (length emojis) @ '']''
               in Inr (header @ newline @ text_line)))"

definition is_in_amulet :: "bot_manager \<Rightarrow> bool" where
  "is_in_amulet s = amulet_active s"

definition get_amulet_info :: "bot_manager \<Rightarrow> amulet_info option" where
  "get_amulet_info s = (if amulet_active s then Some (amulet_info s) else None)"

definition get_amulet_pending_action :: "bot_manager \<Rightarrow> json option" where
  "get_amulet_pending_action s = amulet_pending_action s"

text \<open>\<open>int(self._amulet_replace_cursor or 0)\<close>; the attribute always holds an integer.\<close>

definition get_amulet_replace_cursor :: "bot_manager \<Rightarrow> int" where
  "get_amulet_replace_cursor s = amulet_replace_cursor s"

section \<open>Well-formed tile records and sample inputs\<close>

text \<open>The id of a pool entry that is a record with an integer \<open>id\<close>.\<close>

fun tile_id :: "json \<Rightarrow> int option" where
  "tile_id (JDict kvs) = (case map_of kvs ''id'' of Some (JInt i) \<Rightarrow> Some i | _ \<Rightarrow> None)"
| "tile_id _ = None"

text \<open>
  Sample inputs on which the definitions are evaluated below. \<open>sample_ext\<close> carries the
  protocol's method names; its three functions are stand-ins (no string is a number,
  no tile has an emoji), which the sample payloads never reach.
\<close>

definition sample_ext :: externals where
  "sample_ext =
     \<lparr>checkNetworkDelay = ''.lq.FastTest.checkNetworkDelay'',
      heartbeat = ''.lq.Lobby.heatbeat'',
      routeHeartbeat = ''.lq.Route.heartbeat'',
      loginBeat = ''.lq.Lobby.loginBeat'',
      fetchAccountActivityData = ''.lq.Lobby.fetchAccountActivityData'',
      fetchServerTime = ''.lq.Lobby.fetchServerTime'',
      oauth2Login = ''.lq.Lobby.oauth2Login'',
      fetchAmuletActivityData = ''.lq.Lobby.fetchAmuletActivityData'',
      amuletActivityUpgrade = ''.lq.Lobby.amuletActivityUpgrade'',
      amuletActivityOperate = ''.lq.Lobby.amuletActivityOperate'',
      amuletActivityGiveup = ''.lq.Lobby.amuletActivityGiveup'',
      int_of_str = (\<lambda>s. None),
      repr_of = (\<lambda>v. []),
      tile_emoji = (\<lambda>t. None)\<rparr>"

definition sample_obs :: observations where
  "sample_obs =
     \<lparr>get_bot_ok = True, browser_is_running = False, mitm_cert_installed = True,
      mitm_is_running = True\<rparr>"

definition tile_rec :: "int \<Rightarrow> string \<Rightarrow> json" where
  "tile_rec i t = JDict [(''id'', JInt i), (''tile'', JStr t)]"

text \<open>108 records with the ids 0 to 107, all of the tile \<open>1m\<close>.\<close>

definition sample_pool :: "json list" where
  "sample_pool = map (\<lambda>k. tile_rec (int k) ''1m'') [0..<108]"

text \<open>A snapshot that carries the pool and nothing else in its round.\<close>

definition sample_round :: "(string \<times> json) list" where
  "sample_round = [(''pool'', JList sample_pool)]"

definition sample_fetch_data :: json where
  "sample_fetch_data =
     JDict [(''data'', JDict [(''game'', JDict [(''round'', JDict sample_round)])])]"

definition response :: "string \<Rightarrow> json \<Rightarrow> ws_message" where
  "response m d =
     \<lparr>ws_type = MESSAGE, flow_id = ''flow-1'',
      parsed = Some \<lparr>msg_id = JInt 1, msg_type = Res, liqi_method = m, data = d\<rparr>\<rparr>"

definition sample_login_frame :: ws_message where
  "sample_login_frame = response (oauth2Login sample_ext) (JDict [])"

definition sample_fetch_frame :: ws_message where
  "sample_fetch_frame = response (fetchAmuletActivityData sample_ext) sample_fetch_data"

definition sample_giveup_frame :: ws_message where
  "sample_giveup_frame = response (amuletActivityGiveup sample_ext) (JDict [])"

text \<open>An operate batch of one event whose round holds the one dirty-flagged field.\<close>

definition dirty_field :: "json \<Rightarrow> json" where
  "dirty_field v = JDict [(''dirty'', JBool True), (''value'', v)]"

definition round_event :: "(string \<times> json) list \<Rightarrow> json" where
  "round_event rd = JDict [(''valueChanges'', JDict [(''round'', JDict rd)])]"

definition sample_history_frame :: ws_message where
  "sample_history_frame =
     response (amuletActivityOperate sample_ext)
       (JDict [(''events'',
          JList [round_event [(''used'', dirty_field (JList (replicate 1000 (JInt 7))))]])])"

text \<open>
  A pool entry whose \<open>id\<close>, where it has one, is accepted by \<open>int\<close>. Entries that are no
  record or have no \<open>id\<close> are skipped by the routine and are fine.
\<close>

definition id_convertible :: "externals \<Rightarrow> json \<Rightarrow> bool" where
  "id_convertible ext x =
     (if is_dict x \<and> has_key x ''id''
      then (case py_int ext (get_field x ''id'') of Inl e \<Rightarrow> False | Inr i \<Rightarrow> True)
      else True)"

text \<open>A state left behind by an earlier session: none of the three fields is at its default.\<close>

definition sample_prior :: bot_manager where
  "sample_prior =
     init\<lparr>amulet_active := True, amulet_used_ids := {1, 2, 3}, amulet_desktop_remain := 5,
          amulet_replace_cursor := 7\<rparr>"

text \<open>
  What every reachable state satisfies: no pending action, segments no longer than
  their slices, and a pool that is \<open>None\<close> or a copy made by the (re)set routine.
\<close>

fun pool_ok :: "json \<Rightarrow> bool" where
  "pool_ok JNull = True"
| "pool_ok (JList xs) = True"
| "pool_ok (JStr s) = True"
| "pool_ok _ = False"

definition amulet_inv :: "bot_manager \<Rightarrow> bool" where
  "amulet_inv s =
     (amulet_pending_action s = None \<and> length (amulet_replace_ids s) \<le> 49
      \<and> length (amulet_draw_ids s) \<le> 36 \<and> pool_ok (amulet_pool s))"

text \<open>
  An event whose round carries a dirty-flagged \<open>usedDesktop\<close>: the test of the operate
  handler before it overwrites the used ids.
\<close>

definition used_dirty :: "json \<Rightarrow> bool" where
  "used_dirty ev =
     (case dict_get ev ''valueChanges'' of
        Inl e \<Rightarrow> False
      | Inr v \<Rightarrow>
     (case dict_get (py_or v (JDict [])) ''round'' of
        Inl e \<Rightarrow> False
      | Inr r \<Rightarrow>
     (case dict_get (py_or r (JDict [])) ''usedDesktop'' of
        Inl e \<Rightarrow> False
      | Inr used \<Rightarrow> is_dict used \<and> truthy (get_field used ''dirty''))))"

text \<open>
  A snapshot of the replacement stage (\<open>stage = 2\<close>) with the sample pool, and the state
  after two runs of the loop: the snapshot, then the operate response whose replacement
  history has 1000 entries.
\<close>

definition sample_stage2_data :: json where
  "sample_stage2_data =
     JDict [(''data'',
       JDict [(''game'', JDict [(''stage'', JInt 2), (''round'', JDict sample_round)])])]"

definition sample_stage2_frame :: ws_message where
  "sample_stage2_frame = response (fetchAmuletActivityData sample_ext) sample_stage2_data"

definition sample_replacing :: bot_manager where
  "sample_replacing =
     iteration sample_ext sample_obs
       (iteration sample_ext sample_obs init (Some sample_stage2_frame))
       (Some sample_history_frame)"

text \<open>
  A pool of 108 records whose tiles cycle through three symbols, a snapshot that carries
  it together with a remaining count \<open>r\<close>, and the state after one run of the loop on
  that snapshot.
\<close>

definition sample_tiles :: "nat \<Rightarrow> string" where
  "sample_tiles k = [''1m'', ''2p'', ''3s''] ! (k mod 3)"

definition sample_mixed_pool :: "json list" where
  "sample_mixed_pool = map (\<lambda>k. tile_rec (int k) (sample_tiles k)) [0..<108]"

definition sample_draw_data :: "int \<Rightarrow> json" where
  "sample_draw_data r =
     JDict [(''data'', JDict [(''game'', JDict [(''round'',
       JDict [(''pool'', JList sample_mixed_pool), (''desktopRemain'', JInt r)])])])]"

definition sample_draw_frame :: "int \<Rightarrow> ws_message" where
  "sample_draw_frame r = response (fetchAmuletActivityData sample_ext) (sample_draw_data r)"

definition sample_drawing :: "int \<Rightarrow> bot_manager" where
  "sample_drawing r = iteration sample_ext sample_obs init (Some (sample_draw_frame r))"

section \<open>Lemmas on the pool (re)set routine\<close>

lemma returns_Done: "returns out \<Longrightarrow> out = Done (state_of out)"
  by (cases out) simp_all

lemma tile_id_convertible: "tile_id x \<noteq> None \<Longrightarrow> id_convertible ext x"
  by (cases x) (auto simp: id_convertible_def split: option.splits json.splits)

lemma slice_ids_convertible:
  "list_all (id_convertible ext) xs \<Longrightarrow> \<exists>ids. slice_ids ext xs = Inr ids"
proof (induction xs)
  case Nil
  then show ?case by simp
next
  case (Cons x xs)
  then obtain ids where "slice_ids ext xs = Inr ids" by auto
  with Cons.prems show ?case
    by (auto simp: id_convertible_def split: sum.splits if_splits)
qed

lemma slice_ids_records:
  "\<forall>x\<in>set xs. tile_id x \<noteq> None \<Longrightarrow> slice_ids ext xs = Inr (map (\<lambda>x. the (tile_id x)) xs)"
proof (induction xs)
  case Nil
  then show ?case by simp
next
  case (Cons x xs)
  from Cons.prems obtain i where i: "tile_id x = Some i" by auto
  then obtain kvs where x: "x = JDict kvs" and kv: "map_of kvs ''id'' = Some (JInt i)"
    by (cases x) (auto split: option.splits json.splits)
  from Cons show ?case by (simp add: x kv)
qed

lemma set_pool_done_fields:
  "amulet_set_pool_from_array ext s pool = Done s' \<Longrightarrow>
     amulet_desktop_remain s' = 36 \<and> amulet_used_ids s' = {} \<and> amulet_replace_cursor s' = 0"
  by (auto simp: amulet_set_pool_from_array_def Let_def split: sum.splits)

lemma set_pool_returns:
  assumes "list_all (id_convertible ext) xs"
  shows "returns (amulet_set_pool_from_array ext s (JList xs))"
proof -
  have "list_all (id_convertible ext) (take 36 (drop 23 xs))"
    using assms unfolding list_all_iff by (meson in_set_dropD in_set_takeD)
  then obtain d where d: "slice_ids ext (take 36 (drop 23 xs)) = Inr d"
    using slice_ids_convertible by blast
  have "list_all (id_convertible ext) (take 49 (drop 59 xs))"
    using assms unfolding list_all_iff by (meson in_set_dropD in_set_takeD)
  then obtain r where r: "slice_ids ext (take 49 (drop 59 xs)) = Inr r"
    using slice_ids_convertible by blast
  show ?thesis by (simp add: amulet_set_pool_from_array_def d r)
qed

lemma set_pool_records:
  assumes "\<forall>x\<in>set xs. tile_id x \<noteq> None"
  shows "amulet_set_pool_from_array ext s (JList xs) =
     Done (s\<lparr>amulet_pool := JList xs,
              amulet_draw_ids := map (\<lambda>x. the (tile_id x)) (take 36 (drop 23 xs)),
              amulet_replace_ids := map (\<lambda>x. the (tile_id x)) (take 49 (drop 59 xs)),
              amulet_used_ids := {}, amulet_desktop_remain := 36, amulet_replace_cursor := 0\<rparr>)"
proof -
  have d: "\<forall>x\<in>set (take 36 (drop 23 xs)). tile_id x \<noteq> None"
    using assms by (meson in_set_dropD in_set_takeD)
  have r: "\<forall>x\<in>set (take 49 (drop 59 xs)). tile_id x \<noteq> None"
    using assms by (meson in_set_dropD in_set_takeD)
  show ?thesis
    by (simp add: amulet_set_pool_from_array_def slice_ids_records[OF d] slice_ids_records[OF r])
qed

lemma sample_pool_length: "length sample_pool = 108"
  by (simp add: sample_pool_def)

lemma sample_pool_records: "\<forall>x\<in>set sample_pool. tile_id x \<noteq> None"
  by (auto simp: sample_pool_def tile_rec_def)

lemma sample_pool_convertible: "list_all (id_convertible ext) sample_pool"
  unfolding list_all_iff using sample_pool_records tile_id_convertible by blast

section \<open>An invariant of the reachable states\<close>

lemma slice_ids_length: "slice_ids ext xs = Inr ids \<Longrightarrow> length ids \<le> length xs"
proof (induction xs arbitrary: ids)
  case Nil
  then show ?case by simp
next
  case (Cons x xs)
  then show ?case
    by (fastforce split: if_splits sum.splits)
qed

lemma slice_items_length: "length (slice_items a b p) \<le> b - a"
  by (cases p) simp_all

lemma copy_all_ok: "copy_all pool = Inr p \<Longrightarrow> pool_ok p"
  by (cases pool) auto

lemma set_pool_inv:
  assumes "amulet_inv s"
  shows "amulet_inv (state_of (amulet_set_pool_from_array ext s pool))"
proof (cases "copy_all pool")
  case (Inl e)
  then show ?thesis using assms by (simp add: amulet_set_pool_from_array_def)
next
  case (Inr p)
  have pk: "pool_ok p" using Inr by (rule copy_all_ok)
  have d: "\<And>d. slice_ids ext (slice_items 23 59 p) = Inr d \<Longrightarrow> length d \<le> 36"
    using slice_ids_length slice_items_length[of 23 59 p] by fastforce
  have r: "\<And>r. slice_ids ext (slice_items 59 108 p) = Inr r \<Longrightarrow> length r \<le> 49"
    using slice_ids_length slice_items_length[of 59 108 p] by fastforce
  show ?thesis
    using assms pk d r
    by (auto simp: amulet_set_pool_from_array_def Inr amulet_inv_def Let_def split: sum.splits)
qed

lemma fetch_inv:
  assumes "amulet_inv s"
  shows "amulet_inv (state_of (amulet_on_fetch_data ext s liqi_data))"
proof -
  have a: "\<And>p. amulet_inv (state_of (amulet_set_pool_from_array ext s p))"
    using assms by (rule set_pool_inv)
  have b: "\<And>p s1 e. amulet_set_pool_from_array ext s p = Raised e s1 \<Longrightarrow> amulet_inv s1"
    using a by (metis state_of.simps(2))
  have c: "\<And>p s1. amulet_set_pool_from_array ext s p = Done s1 \<Longrightarrow> amulet_inv s1"
    using a by (metis state_of.simps(1))
  show ?thesis
    using assms
    by (auto simp: amulet_on_fetch_data_def Let_def amulet_inv_def
        split: sum.splits outcome.splits json.splits if_splits dest: b c)
qed


lemma for_events_inv:
  assumes step: "\<And>s ev. P s \<Longrightarrow> P (state_of (body s ev))" and "P s"
  shows "P (state_of (for_events body s evs))"
  using \<open>P s\<close>
proof (induction evs arbitrary: s)
  case Nil
  then show ?case by simp
next
  case (Cons ev evs)
  show ?case
  proof (cases "body s ev")
    case (Done s1)
    then have "P s1" using step[OF Cons.prems, of ev] by simp
    then show ?thesis using Done Cons.IH by simp
  next
    case (Raised e s1)
    then have "P s1" using step[OF Cons.prems, of ev] by simp
    then show ?thesis using Raised by simp
  qed
qed

lemma dirty_desktop_remain_inv:
  "amulet_inv s \<Longrightarrow> amulet_inv (state_of (dirty_desktop_remain ext s rd))"
  by (auto simp: dirty_desktop_remain_def Let_def amulet_inv_def split: sum.splits)

lemma dirty_replace_cursor_inv:
  "amulet_inv s \<Longrightarrow> amulet_inv (dirty_replace_cursor s rd)"
  by (auto simp: dirty_replace_cursor_def Let_def amulet_inv_def split: sum.splits)

lemma inv_DoneD: "amulet_inv (state_of out) \<Longrightarrow> out = Done s' \<Longrightarrow> amulet_inv s'"
  by simp

lemma inv_RaisedD: "amulet_inv (state_of out) \<Longrightarrow> out = Raised e s' \<Longrightarrow> amulet_inv s'"
  by simp

lemma upgrade_event_inv:
  assumes "amulet_inv s"
  shows "amulet_inv (state_of (upgrade_event ext s ev))"
proof -
  note sp = set_pool_inv[OF assms, of ext]
  show ?thesis
    using assms
    by (auto simp: upgrade_event_def Let_def
        split: sum.splits outcome.splits
        dest!: inv_DoneD[OF sp] inv_RaisedD[OF sp]
        dest: inv_DoneD[OF dirty_desktop_remain_inv] inv_RaisedD[OF dirty_desktop_remain_inv]
        intro: dirty_replace_cursor_inv)
qed

lemma operate_event_inv:
  assumes "amulet_inv s"
  shows "amulet_inv (state_of (operate_event ext s ev))"
proof -
  have u: "\<And>u. amulet_inv (s\<lparr>amulet_used_ids := u\<rparr>)"
    using assms by (simp add: amulet_inv_def)
  show ?thesis
    using assms u
    by (auto simp: operate_event_def Let_def
        split: sum.splits outcome.splits if_splits
        dest: inv_DoneD[OF dirty_desktop_remain_inv] inv_RaisedD[OF dirty_desktop_remain_inv]
        intro: dirty_replace_cursor_inv)
qed

lemma update_event_frame:
  "state_of (update_event s ev) = s\<lparr>amulet_info := amulet_info (state_of (update_event s ev))\<rparr>"
  by (auto simp: update_event_def Let_def split: sum.splits outcome.splits)

lemma update_event_inv:
  "amulet_inv s \<Longrightarrow> amulet_inv (state_of (update_event s ev))"
  by (subst update_event_frame) (simp add: amulet_inv_def)

lemma update_from_events_inv:
  "amulet_inv s \<Longrightarrow> amulet_inv (state_of (amulet_update_from_events s events))"
  by (auto simp: amulet_update_from_events_def split: sum.splits
      intro: for_events_inv[where P = amulet_inv] update_event_inv)

lemma on_upgrade_events_inv:
  assumes "amulet_inv s"
  shows "amulet_inv (state_of (amulet_on_upgrade_events ext s events))"
proof (cases "py_iter events")
  case (Inl e)
  then show ?thesis using assms by (simp add: amulet_on_upgrade_events_def)
next
  case (Inr evs)
  have loop: "amulet_inv (state_of (for_events (upgrade_event ext) s evs))"
    using upgrade_event_inv assms by (rule for_events_inv)
  show ?thesis
  proof (cases "for_events (upgrade_event ext) s evs")
    case (Done s1)
    then show ?thesis
      using loop by (simp add: amulet_on_upgrade_events_def Inr update_from_events_inv)
  next
    case (Raised e s1)
    then show ?thesis using loop by (simp add: amulet_on_upgrade_events_def Inr)
  qed
qed

lemma on_operate_events_inv:
  assumes "amulet_inv s"
  shows "amulet_inv (state_of (amulet_on_operate_events ext s events))"
proof (cases "py_iter events")
  case (Inl e)
  then show ?thesis using assms by (simp add: amulet_on_operate_events_def)
next
  case (Inr evs)
  have loop: "amulet_inv (state_of (for_events (operate_event ext) s evs))"
    using operate_event_inv assms by (rule for_events_inv)
  show ?thesis
  proof (cases "for_events (operate_event ext) s evs")
    case (Done s1)
    then show ?thesis
      using loop by (simp add: amulet_on_operate_events_def Inr update_from_events_inv)
  next
    case (Raised e s1)
    then show ?thesis using loop by (simp add: amulet_on_operate_events_def Inr)
  qed
qed

lemma active_inv: "amulet_inv s \<Longrightarrow> amulet_inv (s\<lparr>amulet_active := b\<rparr>)"
  by (simp add: amulet_inv_def)

lemma giveup_inv: "amulet_inv s \<Longrightarrow> amulet_inv (amulet_giveup s)"
  by (simp add: amulet_inv_def amulet_giveup_def)

lemma process_amulet_msg_inv:
  assumes "amulet_inv s"
  shows "amulet_inv (state_of (process_amulet_msg ext s m))"
  using assms active_inv[OF assms, of True]
  by (auto simp: process_amulet_msg_def Let_def fetch_inv on_upgrade_events_inv
      on_operate_events_inv giveup_inv split: sum.splits)

lemma log_call_inv: "amulet_inv s \<Longrightarrow> amulet_inv (log_call cb s)"
  by (simp add: amulet_inv_def log_call_def)

lemma process_msg_inv:
  assumes "amulet_inv s"
  shows "amulet_inv (state_of (process_msg ext s msg))"
proof (cases "ws_type msg")
  case START
  then show ?thesis using assms by (simp add: process_msg_def)
next
  case END
  then show ?thesis
    using assms
    by (simp add: process_msg_def Let_def amulet_inv_def log_call_def process_end_game_def)
next
  case MESSAGE
  then show ?thesis
    using assms process_amulet_msg_inv[OF assms]
    by (auto simp: process_msg_def amulet_inv_def log_call_def split: option.splits)
qed

lemma loop_pre_msg_inv: "amulet_inv s \<Longrightarrow> amulet_inv (loop_pre_msg obs s)"
  by (simp add: loop_pre_msg_def Let_def amulet_inv_def create_bot_def
      create_mitm_and_proxinject_def)

lemma loop_post_msg_inv: "amulet_inv s \<Longrightarrow> amulet_inv (loop_post_msg obs s)"
  by (simp add: loop_post_msg_def Let_def amulet_inv_def log_call_def)

lemma iteration_inv:
  assumes "amulet_inv s"
  shows "amulet_inv (iteration ext obs s frame)"
proof -
  have pre: "amulet_inv (loop_pre_msg obs s)" using assms by (rule loop_pre_msg_inv)
  have mid: "amulet_inv (case frame of None \<Rightarrow> loop_pre_msg obs s
      | Some msg \<Rightarrow> (case process_msg ext (loop_pre_msg obs s) msg of
          Done s' \<Rightarrow> s' | Raised e s' \<Rightarrow> s'\<lparr>game_exception := Some e\<rparr>))"
  proof (cases frame)
    case None
    then show ?thesis using pre by simp
  next
    case (Some msg)
    show ?thesis
      using process_msg_inv[OF pre, of ext msg]
      by (cases "process_msg ext (loop_pre_msg obs s) msg") (simp_all add: Some amulet_inv_def)
  qed
  then show ?thesis
    by (simp add: iteration_def Let_def loop_post_msg_inv)
qed

lemma init_inv: "amulet_inv init"
  by (simp add: amulet_inv_def init_def)

lemma reachable_inv: "reachable ext s \<Longrightarrow> amulet_inv s"
proof (induction rule: reachable.induct)
  case reach_init
  show ?case by (rule init_inv)
next
  case (reach_iteration s obs frame)
  then show ?case by (simp add: iteration_inv)
next
  case (reach_set_bot_update s)
  then show ?case by (simp add: set_bot_update_def amulet_inv_def)
qed

section \<open>The claims\<close>

text \<open>
  C2. Every run of the pool (re)set routine that returns leaves \<open>DesktopRemain = 36\<close>,
  \<open>UsedIdSet\<close> empty and \<open>ReplaceCursor = 0\<close>, whatever the three fields held before and
  whichever handler called it; and the routine returns for every pool array whose
  entries carry ids that \<open>int\<close> accepts (an id it rejects makes the routine raise before
  the reset).
\<close>

theorem pool_reset_defaults:
  "(amulet_set_pool_from_array ext s pool = Done s' \<longrightarrow>
      amulet_desktop_remain s' = 36 \<and> amulet_used_ids s' = {} \<and> amulet_replace_cursor s' = 0)
   \<and> (list_all (id_convertible ext) xs \<longrightarrow>
        returns (amulet_set_pool_from_array ext s (JList xs)))"
  using set_pool_done_fields set_pool_returns by blast

theorem pool_reset_defaults_witness:
  "returns (amulet_set_pool_from_array sample_ext sample_prior (JList sample_pool))
   \<and> amulet_desktop_remain sample_prior = 5
   \<and> amulet_desktop_remain
        (state_of (amulet_set_pool_from_array sample_ext sample_prior (JList sample_pool))) = 36
   \<and> amulet_used_ids
        (state_of (amulet_set_pool_from_array sample_ext sample_prior (JList sample_pool))) = {}
   \<and> amulet_replace_cursor
        (state_of (amulet_set_pool_from_array sample_ext sample_prior (JList sample_pool))) = 0"
proof -
  let ?out = "amulet_set_pool_from_array sample_ext sample_prior (JList sample_pool)"
  have r: "returns ?out"
    using pool_reset_defaults [of sample_ext sample_prior "JList sample_pool" "state_of ?out"
        sample_pool] sample_pool_convertible
    by blast
  then have "?out = Done (state_of ?out)" by (rule returns_Done)
  with r show ?thesis
    using pool_reset_defaults [of sample_ext sample_prior "JList sample_pool" "state_of ?out"
        sample_pool]
    by (simp add: sample_prior_def)
qed

text \<open>
  C4. For a pool array of exactly 108 records, each with an integer id, the routine
  returns with \<open>DrawSegment\<close> the 36 ids at the pool indices 23 to 58 and
  \<open>ReplaceQueue\<close> the 49 ids at the indices 59 to 107, in order; nothing is asked of
  the tile symbols.
\<close>

theorem pool_segments:
  assumes "length xs = 108" and "\<forall>x\<in>set xs. tile_id x \<noteq> None"
  shows "\<exists>s'. amulet_set_pool_from_array ext s (JList xs) = Done s'
     \<and> length (amulet_draw_ids s') = 36
     \<and> (\<forall>k<36. amulet_draw_ids s' ! k = the (tile_id (xs ! (23 + k))))
     \<and> length (amulet_replace_ids s') = 49
     \<and> (\<forall>k<49. amulet_replace_ids s' ! k = the (tile_id (xs ! (59 + k))))"
  using assms by (simp add: set_pool_records)

theorem pool_segments_witness:
  "length sample_pool = 108
   \<and> (\<exists>s'. amulet_set_pool_from_array sample_ext sample_prior (JList sample_pool) = Done s'
     \<and> length (amulet_draw_ids s') = 36
     \<and> amulet_draw_ids s' ! 0 = 23 \<and> amulet_draw_ids s' ! 35 = 58
     \<and> length (amulet_replace_ids s') = 49
     \<and> amulet_replace_ids s' ! 0 = 59 \<and> amulet_replace_ids s' ! 48 = 107)"
proof -
  obtain s' where s': "amulet_set_pool_from_array sample_ext sample_prior (JList sample_pool) = Done s'"
    and d: "length (amulet_draw_ids s') = 36"
    and dk: "\<forall>k<36. amulet_draw_ids s' ! k = the (tile_id (sample_pool ! (23 + k)))"
    and r: "length (amulet_replace_ids s') = 49"
    and rk: "\<forall>k<49. amulet_replace_ids s' ! k = the (tile_id (sample_pool ! (59 + k)))"
    using pool_segments [OF sample_pool_length sample_pool_records, of sample_ext sample_prior]
    by blast
  have nth: "\<And>k. k < 108 \<Longrightarrow> the (tile_id (sample_pool ! k)) = int k"
    by (simp add: sample_pool_def tile_rec_def)
  have "amulet_draw_ids s' ! 0 = 23" using dk nth by simp
  moreover have "amulet_draw_ids s' ! 35 = 58" using dk nth by simp
  moreover have "amulet_replace_ids s' ! 0 = 59" using rk nth by simp
  moreover have "amulet_replace_ids s' ! 48 = 107" using rk nth by simp
  ultimately show ?thesis using s' d r sample_pool_length by blast
qed

text \<open>
  C10. The pending-action field is \<open>None\<close> after \<open>__init__\<close> and no operation assigns
  it: in every reachable state the query \<open>get_amulet_pending_action\<close> returns \<open>None\<close>.
\<close>

theorem pending_action_always_absent:
  "reachable ext s \<Longrightarrow> get_amulet_pending_action s = None"
  using reachable_inv [of ext s] by (simp add: get_amulet_pending_action_def amulet_inv_def)

theorem pending_action_always_absent_witness:
  "reachable sample_ext (iteration sample_ext sample_obs init (Some sample_fetch_frame))
   \<and> get_amulet_pending_action
        (iteration sample_ext sample_obs init (Some sample_fetch_frame)) = None"
proof -
  have r: "reachable sample_ext (iteration sample_ext sample_obs init (Some sample_fetch_frame))"
    by (rule reach_iteration [OF reach_init])
  from r pending_action_always_absent [OF r] show ?thesis by simp
qed

section \<open>The snapshot handler on a payload without resume fields\<close>

lemma fetch_pool_only:
  assumes l: "liqi_data = JDict lkv"
    and d: "map_of lkv ''data'' = Some (JDict dkv)"
    and g: "map_of dkv ''game'' = Some (JDict gkv)"
    and r: "map_of gkv ''round'' = Some (JDict rkv)"
    and p: "map_of rkv ''pool'' = Some (JList xs)"
    and n: "length xs = 108"
    and c: "list_all (id_convertible ext) xs"
    and u: "map_of rkv ''usedDesktop'' = None"
    and dr: "map_of rkv ''desktopRemain'' = None"
    and h: "map_of rkv ''used'' = None"
  shows "\<exists>s'. amulet_on_fetch_data ext s liqi_data = Done s'
     \<and> amulet_used_ids s' = {} \<and> amulet_desktop_remain s' = 0 \<and> amulet_replace_cursor s' = 0"
proof -
  have ne: "dkv \<noteq> []" "gkv \<noteq> []" "rkv \<noteq> []" "xs \<noteq> []"
    using g r p n by auto
  obtain s1 where s1: "amulet_set_pool_from_array ext s (JList xs) = Done s1"
    using set_pool_returns[OF c, of s] returns_Done by blast
  show ?thesis
    by (simp add: amulet_on_fetch_data_def l d g r p u dr h ne py_or_def s1 int_set_of_def)
qed

lemma sample_fetch_result:
  "\<exists>s'. amulet_on_fetch_data sample_ext sample_prior sample_fetch_data = Done s'
     \<and> amulet_used_ids s' = {} \<and> amulet_desktop_remain s' = 0 \<and> amulet_replace_cursor s' = 0"
  by (rule fetch_pool_only [where lkv = "[(''data'', JDict [(''game'', JDict [(''round'', JDict sample_round)])])]"
        and dkv = "[(''game'', JDict [(''round'', JDict sample_round)])]"
        and gkv = "[(''round'', JDict sample_round)]"
        and rkv = sample_round and xs = sample_pool])
     (simp_all add: sample_fetch_data_def sample_round_def sample_pool_length
        sample_pool_convertible)

text \<open>
  C3, as stated, fails: the sample snapshot carries a 108-element pool and none of the
  fields \<open>usedDesktop\<close>, \<open>desktopRemain\<close>, \<open>used\<close>, and the handler leaves
  \<open>DesktopRemain\<close> at 0, not at 36.
\<close>

theorem fetch_keeps_reset_defaults_counterexample:
  "length sample_pool = 108
   \<and> map_of sample_round ''usedDesktop'' = None
   \<and> map_of sample_round ''desktopRemain'' = None
   \<and> map_of sample_round ''used'' = None
   \<and> returns (amulet_on_fetch_data sample_ext sample_prior sample_fetch_data)
   \<and> amulet_desktop_remain
        (state_of (amulet_on_fetch_data sample_ext sample_prior sample_fetch_data)) = 0
   \<and> amulet_desktop_remain
        (state_of (amulet_on_fetch_data sample_ext sample_prior sample_fetch_data)) \<noteq> 36"
  using sample_fetch_result by (auto simp: sample_pool_length sample_round_def)

text \<open>
  C3, amended. For every snapshot that carries a 108-element pool array (its ids
  accepted by \<open>int\<close>) and no \<open>usedDesktop\<close>, \<open>desktopRemain\<close> or \<open>used\<close> field, the
  handler returns with \<open>UsedIdSet\<close> empty, \<open>ReplaceCursor = 0\<close> and
  \<open>DesktopRemain = 0\<close>: after the (re)set it assigns the three fields from the payload
  unconditionally, an absent field counting as empty, as zero and as the empty history.
\<close>

theorem fetch_without_resume_fields:
  assumes "liqi_data = JDict lkv"
    and "map_of lkv ''data'' = Some (JDict dkv)"
    and "map_of dkv ''game'' = Some (JDict gkv)"
    and "map_of gkv ''round'' = Some (JDict rkv)"
    and "map_of rkv ''pool'' = Some (JList xs)"
    and "length xs = 108"
    and "list_all (id_convertible ext) xs"
    and "map_of rkv ''usedDesktop'' = None"
    and "map_of rkv ''desktopRemain'' = None"
    and "map_of rkv ''used'' = None"
  shows "\<exists>s'. amulet_on_fetch_data ext s liqi_data = Done s'
     \<and> amulet_used_ids s' = {} \<and> amulet_desktop_remain s' = 0 \<and> amulet_replace_cursor s' = 0"
  using assms by (rule fetch_pool_only)

theorem fetch_without_resume_fields_witness:
  "\<exists>s'. amulet_on_fetch_data sample_ext init sample_fetch_data = Done s'
     \<and> amulet_used_ids s' = {} \<and> amulet_desktop_remain s' = 0 \<and> amulet_replace_cursor s' = 0"
  by (rule fetch_without_resume_fields [where lkv = "[(''data'', JDict [(''game'', JDict [(''round'', JDict sample_round)])])]"
        and dkv = "[(''game'', JDict [(''round'', JDict sample_round)])]"
        and gkv = "[(''round'', JDict sample_round)]"
        and rkv = sample_round and xs = sample_pool])
     (simp_all add: sample_fetch_data_def sample_round_def sample_pool_length
        sample_pool_convertible)

section \<open>Routing of the login response\<close>

lemma oauth2Login_ignored:
  assumes "ws_type msg = MESSAGE" and "parsed msg = Some m" and "liqi_method m = oauth2Login ext"
  shows "process_msg ext s msg = Done s"
  using assms by (simp add: process_msg_def METHODS_TO_IGNORE_def)

text \<open>
  C1. The code at the failing input: a \<open>MESSAGE\<close> frame that decodes to
  \<open>(RESPONSE, oauth2Login)\<close>, processed while \<open>lobby_flow_id\<close> is \<open>None\<close>, is taken by the
  ignore-list branch, because \<open>METHODS_TO_IGNORE\<close> holds \<open>oauth2Login\<close>. The state is
  returned unchanged: \<open>lobby_flow_id\<close> stays \<open>None\<close> and \<open>on_lobby_login\<close> is not called.
\<close>

theorem login_response_is_ignored:
  "oauth2Login sample_ext \<in> set (METHODS_TO_IGNORE sample_ext)
   \<and> ws_type sample_login_frame = MESSAGE
   \<and> map_option msg_type (parsed sample_login_frame) = Some Res
   \<and> map_option liqi_method (parsed sample_login_frame) = Some (oauth2Login sample_ext)
   \<and> lobby_flow_id init = None
   \<and> process_msg sample_ext init sample_login_frame = Done init
   \<and> lobby_flow_id (state_of (process_msg sample_ext init sample_login_frame)) = None
   \<and> calls (state_of (process_msg sample_ext init sample_login_frame)) = []"
proof -
  have "process_msg sample_ext init sample_login_frame = Done init"
    by (rule oauth2Login_ignored [where m = "\<lparr>msg_id = JInt 1, msg_type = Res,
          liqi_method = oauth2Login sample_ext, data = JDict []\<rparr>"])
       (simp_all add: sample_login_frame_def response_def)
  then show ?thesis
    by (simp add: METHODS_TO_IGNORE_def sample_login_frame_def response_def init_def)
qed

section \<open>The operate handler\<close>

lemma dirty_desktop_remain_used:
  "amulet_used_ids (state_of (dirty_desktop_remain ext s rd)) = amulet_used_ids s"
  by (simp add: dirty_desktop_remain_def Let_def split: sum.splits)

lemma dirty_replace_cursor_used:
  "amulet_used_ids (dirty_replace_cursor s rd) = amulet_used_ids s"
  by (simp add: dirty_replace_cursor_def Let_def split: sum.splits)

lemma update_from_events_used:
  "amulet_used_ids (state_of (amulet_update_from_events s events)) = amulet_used_ids s"
proof (cases "py_iter events")
  case (Inl e)
  then show ?thesis by (simp add: amulet_update_from_events_def)
next
  case (Inr evs)
  have step: "\<And>t ev. amulet_used_ids t = amulet_used_ids s \<Longrightarrow>
      amulet_used_ids (state_of (update_event t ev)) = amulet_used_ids s"
    by (subst update_event_frame) simp
  have "amulet_used_ids (state_of (for_events update_event s evs)) = amulet_used_ids s"
    by (rule for_events_inv [where P = "\<lambda>t. amulet_used_ids t = amulet_used_ids s"])
       (simp_all add: step)
  then show ?thesis by (simp add: amulet_update_from_events_def Inr)
qed

lemma operate_event_used:
  assumes v: "map_of ekv ''valueChanges'' = Some (JDict vkv)"
    and r: "map_of vkv ''round'' = Some (JDict rkv)"
    and u: "map_of rkv ''usedDesktop'' = Some (JDict ukv)"
    and f: "map_of ukv ''dirty'' = Some flag" "truthy flag"
    and l: "map_of ukv ''value'' = Some (JList vals)"
    and i: "ints_of ext vals = Inr ids"
  shows "amulet_used_ids (state_of (operate_event ext s (JDict ekv))) = set ids"
proof -
  have pv: "py_or (JDict vkv) (JDict []) = JDict vkv" "py_or (JDict rkv) (JDict []) = JDict rkv"
    using r u by (auto simp: py_or_def)
  have pl: "py_or (JList vals) (JList []) = JList vals"
    by (cases vals) (simp_all add: py_or_def)
  have eq: "operate_event ext s (JDict ekv) =
      (case dirty_desktop_remain ext (s\<lparr>amulet_used_ids := set ids\<rparr>) (JDict rkv) of
         Raised e s2 \<Rightarrow> Raised e s2
       | Done s2 \<Rightarrow> Done (dirty_replace_cursor s2 (JDict rkv)))"
    by (simp add: operate_event_def v r u f l i pv pl Let_def)
  have "amulet_used_ids (state_of (dirty_desktop_remain ext (s\<lparr>amulet_used_ids := set ids\<rparr>) (JDict rkv)))
      = set ids"
    by (simp add: dirty_desktop_remain_used)
  then show ?thesis
    unfolding eq
    by (cases "dirty_desktop_remain ext (s\<lparr>amulet_used_ids := set ids\<rparr>) (JDict rkv)")
       (simp_all add: dirty_replace_cursor_used)
qed

lemma for_events_append:
  "for_events body s (pre @ post) =
     (case for_events body s pre of
        Raised e s1 \<Rightarrow> Raised e s1
      | Done s1 \<Rightarrow> for_events body s1 post)"
proof (induction pre arbitrary: s)
  case Nil
  show ?case by simp
next
  case (Cons ev pre)
  show ?case
    by (cases "body s ev") (simp_all add: Cons.IH)
qed

lemma for_events_keep:
  assumes step: "\<And>t ev. ev \<in> set evs \<Longrightarrow> f (state_of (body t ev)) = f t"
  shows "f (state_of (for_events body s evs)) = f s"
  using step
proof (induction evs arbitrary: s)
  case Nil
  show ?case by simp
next
  case (Cons ev evs)
  have one: "f (state_of (body s ev)) = f s"
    by (rule Cons.prems) simp
  have rest: "\<And>t. f (state_of (for_events body t evs)) = f t"
    by (rule Cons.IH) (simp add: Cons.prems)
  show ?case
  proof (cases "body s ev")
    case (Done s1)
    then show ?thesis using one rest [of s1] by simp
  next
    case (Raised e s1)
    then show ?thesis using one by simp
  qed
qed

lemma operate_event_clean:
  assumes "\<not> used_dirty ev"
  shows "amulet_used_ids (state_of (operate_event ext s ev)) = amulet_used_ids s"
proof -
  have tail: "\<And>t rd. amulet_used_ids (state_of
      (case dirty_desktop_remain ext t rd of
         Raised e s2 \<Rightarrow> Raised e s2
       | Done s2 \<Rightarrow> Done (dirty_replace_cursor s2 rd))) = amulet_used_ids t"
  proof -
    fix t rd
    show "amulet_used_ids (state_of
      (case dirty_desktop_remain ext t rd of
         Raised e s2 \<Rightarrow> Raised e s2
       | Done s2 \<Rightarrow> Done (dirty_replace_cursor s2 rd))) = amulet_used_ids t"
      using dirty_desktop_remain_used [of ext t rd]
      by (cases "dirty_desktop_remain ext t rd") (simp_all add: dirty_replace_cursor_used)
  qed
  show ?thesis
    using assms
    by (auto simp: operate_event_def used_dirty_def Let_def tail split: sum.splits)
qed

lemma batch_used:
  assumes v: "map_of ekv ''valueChanges'' = Some (JDict vkv)"
    and r: "map_of vkv ''round'' = Some (JDict rkv)"
    and u: "map_of rkv ''usedDesktop'' = Some (JDict ukv)"
    and f: "map_of ukv ''dirty'' = Some flag" "truthy flag"
    and l: "map_of ukv ''value'' = Some (JList vals)"
    and i: "ints_of ext vals = Inr ids"
    and pre: "returns (for_events (operate_event ext) s pre)"
    and post: "\<forall>ev \<in> set post. \<not> used_dirty ev"
  shows "amulet_used_ids (state_of
      (for_events (operate_event ext) s (pre @ [JDict ekv] @ post))) = set ids"
proof -
  obtain s1 where s1: "for_events (operate_event ext) s pre = Done s1"
    using pre by (cases "for_events (operate_event ext) s pre") simp_all
  have ev: "amulet_used_ids (state_of (operate_event ext s1 (JDict ekv))) = set ids"
    using v r u f l i by (rule operate_event_used)
  have keep: "\<And>t. amulet_used_ids (state_of (for_events (operate_event ext) t post))
      = amulet_used_ids t"
    by (rule for_events_keep) (simp add: operate_event_clean post)
  show ?thesis
    using ev keep
    by (cases "operate_event ext s1 (JDict ekv)") (simp_all add: for_events_append s1)
qed

text \<open>
  C7. In an operate batch, an event whose round carries a dirty-flagged \<open>usedDesktop\<close>
  with the value list \<open>V\<close> overwrites \<open>UsedIdSet\<close> with the set of the ids of \<open>V\<close>:
  wherever the event stands in the batch, whatever the set was before the batch,
  whatever the events before it did to the set (they only have to be processed without
  an exception, so that the loop gets to the event), and whatever else the events carry,
  the batch ends with exactly that set when no later event of the batch carries such
  an update of its own.
\<close>

theorem used_ids_overwritten:
  assumes "map_of ekv ''valueChanges'' = Some (JDict vkv)"
    and "map_of vkv ''round'' = Some (JDict rkv)"
    and "map_of rkv ''usedDesktop'' = Some (JDict ukv)"
    and "map_of ukv ''dirty'' = Some flag" and "truthy flag"
    and "map_of ukv ''value'' = Some (JList vals)"
    and "ints_of ext vals = Inr ids"
    and "returns (for_events (operate_event ext) s pre)"
    and "\<forall>ev \<in> set post. \<not> used_dirty ev"
  shows "amulet_used_ids (state_of
      (amulet_on_operate_events ext s (JList (pre @ [JDict ekv] @ post)))) = set ids"
proof -
  have ev: "amulet_used_ids (state_of
      (for_events (operate_event ext) s (pre @ [JDict ekv] @ post))) = set ids"
    using assms by (rule batch_used)
  show ?thesis
    using ev
    by (cases "for_events (operate_event ext) s (pre @ [JDict ekv] @ post)")
       (simp_all add: amulet_on_operate_events_def update_from_events_used)
qed

theorem used_ids_overwritten_witness:
  "amulet_used_ids sample_prior = {1, 2, 3}
   \<and> amulet_used_ids (state_of (amulet_on_operate_events sample_ext sample_prior
        (JList [round_event [(''usedDesktop'', dirty_field (JList [JInt 5, JInt 6]))],
                round_event [(''usedDesktop'', dirty_field (JList [JInt 4]))],
                round_event [(''desktopRemain'', dirty_field (JInt 30))]]))) = {4}"
proof -
  have pre: "returns (for_events (operate_event sample_ext) sample_prior
      [round_event [(''usedDesktop'', dirty_field (JList [JInt 5, JInt 6]))]])"
    by (simp add: operate_event_def round_event_def dirty_field_def py_or_def
        dirty_desktop_remain_def dirty_replace_cursor_def Let_def)
  have post: "\<forall>ev \<in> set [round_event [(''desktopRemain'', dirty_field (JInt 30))]].
      \<not> used_dirty ev"
    by (simp add: used_dirty_def round_event_def dirty_field_def py_or_def)
  have "amulet_used_ids (state_of (amulet_on_operate_events sample_ext sample_prior
        (JList ([round_event [(''usedDesktop'', dirty_field (JList [JInt 5, JInt 6]))]]
           @ [JDict [(''valueChanges'',
                JDict [(''round'', JDict [(''usedDesktop'', dirty_field (JList [JInt 4]))])])]]
           @ [round_event [(''desktopRemain'', dirty_field (JInt 30))]])))) = set [4]"
    by (rule used_ids_overwritten [where vkv = "[(''round'', JDict [(''usedDesktop'', dirty_field (JList [JInt 4]))])]"
          and rkv = "[(''usedDesktop'', dirty_field (JList [JInt 4]))]"
          and ukv = "[(''dirty'', JBool True), (''value'', JList [JInt 4])]"
          and flag = "JBool True" and vals = "[JInt 4]", OF _ _ _ _ _ _ _ pre post])
       (simp_all add: dirty_field_def)
  then show ?thesis by (simp add: round_event_def sample_prior_def)
qed

section \<open>Give-up and the end of a flow\<close>

lemma giveup_texts_empty:
  "get_amulet_drawable_text ext (amulet_giveup s) = Inr []"
  "get_amulet_replace_text ext (amulet_giveup s) = Inr []"
  by (simp_all add: get_amulet_drawable_text_def get_amulet_replace_text_def amulet_giveup_def)

lemma giveup_info: "amulet_info (amulet_giveup s) = init_info"
  by (simp add: amulet_giveup_def init_info_def)

lemma process_giveup:
  assumes "ws_type msg = MESSAGE" and "parsed msg = Some m" and "msg_type m = Res"
    and "liqi_method m = amuletActivityGiveup ext"
    and "amuletActivityGiveup ext \<notin> set (METHODS_TO_IGNORE ext)"
    and "py_in_str ''amulet'' (lower (amuletActivityGiveup ext))"
    and "amuletActivityGiveup ext \<noteq> fetchAmuletActivityData ext"
    and "amuletActivityGiveup ext \<noteq> amuletActivityUpgrade ext"
    and "amuletActivityGiveup ext \<noteq> amuletActivityOperate ext"
  shows "process_msg ext s msg = Done (amulet_giveup s)"
proof -
  have "liqi_method m \<noteq> oauth2Login ext"
    using assms(4,5) by (auto simp: METHODS_TO_IGNORE_def)
  then show ?thesis
    using assms by (simp add: process_msg_def process_amulet_msg_def)
qed

lemma sample_names:
  "amuletActivityGiveup sample_ext \<notin> set (METHODS_TO_IGNORE sample_ext)"
  "py_in_str ''amulet'' (lower (amuletActivityGiveup sample_ext))"
  "amuletActivityGiveup sample_ext \<noteq> fetchAmuletActivityData sample_ext"
  "amuletActivityGiveup sample_ext \<noteq> amuletActivityUpgrade sample_ext"
  "amuletActivityGiveup sample_ext \<noteq> amuletActivityOperate sample_ext"
  by (simp_all add: sample_ext_def METHODS_TO_IGNORE_def lower_def lower_char_def
      less_eq_char_def)

text \<open>
  C8. A give-up response, processed from any state, returns with the subsystem
  inactive, the pool absent, \<open>DrawSegment\<close>, \<open>ReplaceQueue\<close> and \<open>UsedIdSet\<close> empty,
  \<open>DesktopRemain\<close> and \<open>ReplaceCursor\<close> 0 and \<open>AmuletMeta\<close> at its defaults; the
  drawable-text and the replace-text query on that state return the empty string. The
  premises on the method names say that the give-up method is routed to its branch.
\<close>

theorem giveup_clears_everything:
  assumes "ws_type msg = MESSAGE" and "parsed msg = Some m" and "msg_type m = Res"
    and "liqi_method m = amuletActivityGiveup ext"
    and "amuletActivityGiveup ext \<notin> set (METHODS_TO_IGNORE ext)"
    and "py_in_str ''amulet'' (lower (amuletActivityGiveup ext))"
    and "amuletActivityGiveup ext \<noteq> fetchAmuletActivityData ext"
    and "amuletActivityGiveup ext \<noteq> amuletActivityUpgrade ext"
    and "amuletActivityGiveup ext \<noteq> amuletActivityOperate ext"
  shows "\<exists>s'. process_msg ext s msg = Done s'
     \<and> is_in_amulet s' = False \<and> get_amulet_info s' = None
     \<and> amulet_pool s' = JNull \<and> amulet_draw_ids s' = [] \<and> amulet_replace_ids s' = []
     \<and> amulet_used_ids s' = {} \<and> amulet_desktop_remain s' = 0 \<and> amulet_replace_cursor s' = 0
     \<and> amulet_info s' = init_info
     \<and> get_amulet_drawable_text ext s' = Inr []
     \<and> get_amulet_replace_text ext s' = Inr []"
proof -
  have "process_msg ext s msg = Done (amulet_giveup s)"
    using assms by (rule process_giveup)
  moreover have "is_in_amulet (amulet_giveup s) = False" "get_amulet_info (amulet_giveup s) = None"
    "amulet_pool (amulet_giveup s) = JNull" "amulet_draw_ids (amulet_giveup s) = []"
    "amulet_replace_ids (amulet_giveup s) = []" "amulet_used_ids (amulet_giveup s) = {}"
    "amulet_desktop_remain (amulet_giveup s) = 0" "amulet_replace_cursor (amulet_giveup s) = 0"
    by (simp_all add: amulet_giveup_def is_in_amulet_def get_amulet_info_def)
  ultimately show ?thesis
    using giveup_texts_empty giveup_info by blast
qed

theorem giveup_clears_everything_witness:
  "amulet_active sample_prior
   \<and> (\<exists>s'. process_msg sample_ext sample_prior sample_giveup_frame = Done s'
     \<and> is_in_amulet s' = False \<and> get_amulet_info s' = None
     \<and> amulet_pool s' = JNull \<and> amulet_draw_ids s' = [] \<and> amulet_replace_ids s' = []
     \<and> amulet_used_ids s' = {} \<and> amulet_desktop_remain s' = 0 \<and> amulet_replace_cursor s' = 0
     \<and> amulet_info s' = init_info
     \<and> get_amulet_drawable_text sample_ext s' = Inr []
     \<and> get_amulet_replace_text sample_ext s' = Inr [])"
proof -
  have m: "ws_type sample_giveup_frame = MESSAGE"
    "parsed sample_giveup_frame = Some \<lparr>msg_id = JInt 1, msg_type = Res,
        liqi_method = amuletActivityGiveup sample_ext, data = JDict []\<rparr>"
    by (simp_all add: sample_giveup_frame_def response_def)
  have "amulet_active sample_prior" by (simp add: sample_prior_def)
  then show ?thesis
    using giveup_clears_everything [OF m _ _ sample_names, of sample_prior] by simp
qed

section \<open>Flow ids on a run of the loop\<close>

text \<open>
  No handler of the loop assigns a flow id: the amulet handlers leave both ids alone, and
  the one assignment of \<open>msg.flow_id\<close> to \<open>lobby_flow_id\<close> stands in the login branch,
  behind the ignore list that holds the login method. Both ids are \<open>None\<close> in every
  reachable state, and an \<open>END\<close> frame leaves a reachable state as it is.
\<close>

lemma set_pool_flows:
  "lobby_flow_id (state_of (amulet_set_pool_from_array ext s pool)) = lobby_flow_id s"
  "game_flow_id (state_of (amulet_set_pool_from_array ext s pool)) = game_flow_id s"
  by (auto simp: amulet_set_pool_from_array_def Let_def split: sum.splits)

lemma dirty_desktop_remain_flows:
  "lobby_flow_id (state_of (dirty_desktop_remain ext s rd)) = lobby_flow_id s"
  "game_flow_id (state_of (dirty_desktop_remain ext s rd)) = game_flow_id s"
  by (simp_all add: dirty_desktop_remain_def Let_def split: sum.splits)

lemma dirty_replace_cursor_flows:
  "lobby_flow_id (dirty_replace_cursor s rd) = lobby_flow_id s"
  "game_flow_id (dirty_replace_cursor s rd) = game_flow_id s"
  by (simp_all add: dirty_replace_cursor_def Let_def split: sum.splits)

lemma event_tail_flows:
  "lobby_flow_id (state_of
     (case dirty_desktop_remain ext t rd of
        Raised e s2 \<Rightarrow> Raised e s2
      | Done s2 \<Rightarrow> Done (dirty_replace_cursor s2 rd))) = lobby_flow_id t"
  "game_flow_id (state_of
     (case dirty_desktop_remain ext t rd of
        Raised e s2 \<Rightarrow> Raised e s2
      | Done s2 \<Rightarrow> Done (dirty_replace_cursor s2 rd))) = game_flow_id t"
  using dirty_desktop_remain_flows [of ext t rd]
  by (cases "dirty_desktop_remain ext t rd"; simp add: dirty_replace_cursor_flows)+

lemma fetch_flows:
  "lobby_flow_id (state_of (amulet_on_fetch_data ext s d)) = lobby_flow_id s"
  "game_flow_id (state_of (amulet_on_fetch_data ext s d)) = game_flow_id s"
proof -
  have a: "\<And>p s1. amulet_set_pool_from_array ext s p = Done s1 \<Longrightarrow>
      lobby_flow_id s1 = lobby_flow_id s \<and> game_flow_id s1 = game_flow_id s"
    using set_pool_flows [of ext s] by (metis state_of.simps(1))
  have b: "\<And>p e s1. amulet_set_pool_from_array ext s p = Raised e s1 \<Longrightarrow>
      lobby_flow_id s1 = lobby_flow_id s \<and> game_flow_id s1 = game_flow_id s"
    using set_pool_flows [of ext s] by (metis state_of.simps(2))
  show "lobby_flow_id (state_of (amulet_on_fetch_data ext s d)) = lobby_flow_id s"
    by (auto simp: amulet_on_fetch_data_def Let_def
        split: sum.splits outcome.splits json.splits if_splits dest: a b)
  show "game_flow_id (state_of (amulet_on_fetch_data ext s d)) = game_flow_id s"
    by (auto simp: amulet_on_fetch_data_def Let_def
        split: sum.splits outcome.splits json.splits if_splits dest: a b)
qed

lemma upgrade_event_flows:
  "(lobby_flow_id (state_of (upgrade_event ext s ev)), game_flow_id (state_of (upgrade_event ext s ev)))
   = (lobby_flow_id s, game_flow_id s)"
proof -
  have a: "\<And>p s1. amulet_set_pool_from_array ext s p = Done s1 \<Longrightarrow>
      lobby_flow_id s1 = lobby_flow_id s \<and> game_flow_id s1 = game_flow_id s"
    using set_pool_flows [of ext s] by (metis state_of.simps(1))
  have b: "\<And>p e s1. amulet_set_pool_from_array ext s p = Raised e s1 \<Longrightarrow>
      lobby_flow_id s1 = lobby_flow_id s \<and> game_flow_id s1 = game_flow_id s"
    using set_pool_flows [of ext s] by (metis state_of.simps(2))
  show ?thesis
    by (auto simp: upgrade_event_def Let_def event_tail_flows
        split: sum.splits outcome.splits dest: a b)
qed

lemma operate_event_flows:
  "(lobby_flow_id (state_of (operate_event ext s ev)), game_flow_id (state_of (operate_event ext s ev)))
   = (lobby_flow_id s, game_flow_id s)"
  by (auto simp: operate_event_def Let_def event_tail_flows split: sum.splits)

lemma update_event_flows:
  "lobby_flow_id (state_of (update_event s ev)) = lobby_flow_id s"
  "game_flow_id (state_of (update_event s ev)) = game_flow_id s"
  by (subst update_event_frame, simp)+

lemma update_from_events_flows:
  "(lobby_flow_id (state_of (amulet_update_from_events s events)),
    game_flow_id (state_of (amulet_update_from_events s events)))
   = (lobby_flow_id s, game_flow_id s)"
proof (cases "py_iter events")
  case (Inl e)
  then show ?thesis by (simp add: amulet_update_from_events_def)
next
  case (Inr evs)
  have "(\<lambda>t. (lobby_flow_id t, game_flow_id t)) (state_of (for_events update_event s evs))
      = (\<lambda>t. (lobby_flow_id t, game_flow_id t)) s"
    by (rule for_events_keep) (simp add: update_event_flows)
  then show ?thesis by (simp add: amulet_update_from_events_def Inr)
qed

lemma on_upgrade_events_flows:
  "(lobby_flow_id (state_of (amulet_on_upgrade_events ext s events)),
    game_flow_id (state_of (amulet_on_upgrade_events ext s events)))
   = (lobby_flow_id s, game_flow_id s)"
proof (cases "py_iter events")
  case (Inl e)
  then show ?thesis by (simp add: amulet_on_upgrade_events_def)
next
  case (Inr evs)
  have loop: "(\<lambda>t. (lobby_flow_id t, game_flow_id t)) (state_of (for_events (upgrade_event ext) s evs))
      = (\<lambda>t. (lobby_flow_id t, game_flow_id t)) s"
    by (rule for_events_keep) (simp add: upgrade_event_flows)
  show ?thesis
    using loop update_from_events_flows
    by (cases "for_events (upgrade_event ext) s evs")
       (simp_all add: amulet_on_upgrade_events_def Inr)
qed

lemma on_operate_events_flows:
  "(lobby_flow_id (state_of (amulet_on_operate_events ext s events)),
    game_flow_id (state_of (amulet_on_operate_events ext s events)))
   = (lobby_flow_id s, game_flow_id s)"
proof (cases "py_iter events")
  case (Inl e)
  then show ?thesis by (simp add: amulet_on_operate_events_def)
next
  case (Inr evs)
  have loop: "(\<lambda>t. (lobby_flow_id t, game_flow_id t)) (state_of (for_events (operate_event ext) s evs))
      = (\<lambda>t. (lobby_flow_id t, game_flow_id t)) s"
    by (rule for_events_keep) (simp add: operate_event_flows)
  show ?thesis
    using loop update_from_events_flows
    by (cases "for_events (operate_event ext) s evs")
       (simp_all add: amulet_on_operate_events_def Inr)
qed

lemma process_amulet_msg_flows:
  "(lobby_flow_id (state_of (process_amulet_msg ext s m)),
    game_flow_id (state_of (process_amulet_msg ext s m)))
   = (lobby_flow_id s, game_flow_id s)"
  using fetch_flows [of ext "s\<lparr>amulet_active := True\<rparr>" "data m"]
    on_upgrade_events_flows [of ext "s\<lparr>amulet_active := True\<rparr>"]
    on_operate_events_flows [of ext "s\<lparr>amulet_active := True\<rparr>"]
  by (auto simp: process_amulet_msg_def Let_def amulet_giveup_def split: sum.splits)

lemma process_msg_no_flow:
  assumes "lobby_flow_id s = None" and "game_flow_id s = None"
  shows "lobby_flow_id (state_of (process_msg ext s msg)) = None
     \<and> game_flow_id (state_of (process_msg ext s msg)) = None"
proof (cases "ws_type msg")
  case START
  then show ?thesis using assms by (simp add: process_msg_def)
next
  case END
  then show ?thesis using assms by (simp add: process_msg_def)
next
  case MESSAGE
  have ign: "oauth2Login ext \<in> set (METHODS_TO_IGNORE ext)"
    by (simp add: METHODS_TO_IGNORE_def)
  show ?thesis
    using assms MESSAGE ign process_amulet_msg_flows [of ext s]
    by (auto simp: process_msg_def split: option.splits)
qed

lemma iteration_no_flow:
  assumes "lobby_flow_id s = None" and "game_flow_id s = None"
  shows "lobby_flow_id (iteration ext obs s frame) = None
     \<and> game_flow_id (iteration ext obs s frame) = None"
proof -
  have pre: "lobby_flow_id (loop_pre_msg obs s) = None" "game_flow_id (loop_pre_msg obs s) = None"
    using assms
    by (simp_all add: loop_pre_msg_def Let_def create_bot_def create_mitm_and_proxinject_def)
  have post: "\<And>t. lobby_flow_id (loop_post_msg obs t) = lobby_flow_id t
      \<and> game_flow_id (loop_post_msg obs t) = game_flow_id t"
    by (simp add: loop_post_msg_def Let_def log_call_def)
  show ?thesis
  proof (cases frame)
    case None
    then show ?thesis using pre by (simp add: iteration_def Let_def post)
  next
    case (Some msg)
    show ?thesis
      using process_msg_no_flow [OF pre, of ext msg]
      by (cases "process_msg ext (loop_pre_msg obs s) msg")
         (simp_all add: iteration_def Let_def post Some)
  qed
qed

lemma reachable_no_flow:
  "reachable ext s \<Longrightarrow> lobby_flow_id s = None \<and> game_flow_id s = None"
proof (induction rule: reachable.induct)
  case reach_init
  show ?case by (simp add: init_def)
next
  case (reach_iteration s obs frame)
  then show ?case by (simp add: iteration_no_flow)
next
  case (reach_set_bot_update s)
  then show ?case by (simp add: set_bot_update_def)
qed

lemma end_frame_on_a_run:
  assumes "reachable ext s" and "ws_type msg = END"
  shows "process_msg ext s msg = Done s"
  using reachable_no_flow [OF assms(1)] assms(2)
  by (simp add: process_msg_def)

text \<open>
  The two branches of the \<open>END\<close> case as they are written, on a state with a flow id
  set (which no run of the loop reaches): the lobby branch clears \<open>lobby_flow_id\<close> and
  then makes the call, the game branch makes the call and then clears \<open>game_flow_id\<close>.
\<close>

lemma process_end_lobby:
  assumes "ws_type msg = END" and "lobby_flow_id s = Some (flow_id msg)"
  shows "\<exists>s'. process_msg ext s msg = Done s' \<and> lobby_flow_id s' = None \<and> calls s' \<noteq> []
     \<and> callee (last (calls s')) = OnExitLobby \<and> lobby_at_call (last (calls s')) = None"
  using assms by (simp add: process_msg_def Let_def log_call_def process_end_game_def)

lemma process_end_game_flow:
  assumes "ws_type msg = END" and "game_flow_id s = Some (flow_id msg)"
  shows "\<exists>s'. process_msg ext s msg = Done s' \<and> game_flow_id s' = None
     \<and> length (calls s) < length (calls s')
     \<and> callee (calls s' ! length (calls s)) = OnEndGame
     \<and> game_at_call (calls s' ! length (calls s)) = Some (flow_id msg)"
  using assms
  by (simp add: process_msg_def Let_def log_call_def process_end_game_def nth_append)

section \<open>Reads of the replace cursor\<close>

lemma sample_operate_routed:
  "amuletActivityOperate sample_ext \<notin> set (METHODS_TO_IGNORE sample_ext)"
  "py_in_str ''amulet'' (lower (amuletActivityOperate sample_ext))"
  "amuletActivityOperate sample_ext \<noteq> fetchAmuletActivityData sample_ext"
  "amuletActivityOperate sample_ext \<noteq> amuletActivityUpgrade sample_ext"
  "amuletActivityOperate sample_ext \<noteq> oauth2Login sample_ext"
  by (simp_all add: sample_ext_def METHODS_TO_IGNORE_def lower_def lower_char_def
      less_eq_char_def)

lemma sample_history_event:
  "operate_event sample_ext s
     (round_event [(''used'', dirty_field (JList (replicate 1000 (JInt 7))))])
   = Done (s\<lparr>amulet_replace_cursor := 1000\<rparr>)"
  by (simp add: operate_event_def round_event_def dirty_field_def py_or_def
      dirty_desktop_remain_def dirty_replace_cursor_def Let_def)

lemma sample_history_update:
  "update_event s (round_event [(''used'', dirty_field (JList (replicate 1000 (JInt 7))))])
   = Done s"
  by (simp add: update_event_def round_event_def dirty_field_def py_or_def Let_def)

lemma sample_history_msg:
  "process_msg sample_ext s sample_history_frame
   = Done (s\<lparr>amulet_active := True, amulet_replace_cursor := 1000\<rparr>)"
  using sample_operate_routed
  by (simp add: process_msg_def process_amulet_msg_def sample_history_frame_def response_def
      amulet_on_operate_events_def amulet_update_from_events_def py_or_def
      sample_history_event sample_history_update)

lemma sample_history_state:
  "amulet_replace_cursor (iteration sample_ext sample_obs init (Some sample_history_frame)) = 1000"
  "amulet_replace_ids (iteration sample_ext sample_obs init (Some sample_history_frame)) = []"
  by (simp_all add: iteration_def sample_history_msg loop_pre_msg_def loop_post_msg_def
      Let_def log_call_def create_bot_def create_mitm_and_proxinject_def init_def
      sample_obs_def is_in_game_def)

lemma pool_ok_iter: "pool_ok p \<Longrightarrow> truthy p \<Longrightarrow> \<exists>objs. py_iter p = Inr objs"
  by (cases p) simp_all

lemma shown_cursor_clamp:
  "int (shown_cursor s)
   = max 0 (min (amulet_replace_cursor s) (int (length (amulet_replace_ids s))))"
  by (simp add: shown_cursor_def Let_def)

lemma id2tile_entry_rec: "id2tile_entry ext (tile_rec i t) = Some (i, t)"
  by (simp add: id2tile_entry_def tile_rec_def)

lemma build_id2tile_recs:
  "build_id2tile ext (map (\<lambda>k. tile_rec (f k) t) ks) m j
   = (if j \<in> f ` set ks then Some t else m j)"
  by (induction ks arbitrary: m) (auto simp: id2tile_entry_rec)

lemma sample_pool_tile:
  "0 \<le> i \<Longrightarrow> i < 108 \<Longrightarrow> tile_of (build_id2tile ext sample_pool Map.empty) i = ''1m''"
proof -
  assume a: "0 \<le> i" "i < 108"
  then have "i \<in> int ` set [0..<108]"
    by (auto simp: image_iff intro!: bexI [where x = "nat i"])
  then show ?thesis
    by (simp add: tile_of_def sample_pool_def build_id2tile_recs del: set_upt)
qed

lemma sample_fetch_routed:
  "fetchAmuletActivityData sample_ext \<notin> set (METHODS_TO_IGNORE sample_ext)"
  "py_in_str ''amulet'' (lower (fetchAmuletActivityData sample_ext))"
  "fetchAmuletActivityData sample_ext \<noteq> oauth2Login sample_ext"
  by (simp_all add: sample_ext_def METHODS_TO_IGNORE_def lower_def lower_char_def
      less_eq_char_def char_of_eq_iff)

lemma sample_pool_slices:
  "map (\<lambda>x. the (tile_id x)) (take 49 (drop 59 sample_pool)) = map int [59..<108]"
  "map (\<lambda>x. the (tile_id x)) (take 36 (drop 23 sample_pool)) = map int [23..<59]"
  by (simp_all add: sample_pool_def drop_map take_map tile_rec_def o_def)


lemma loop_pre_msg_amulet:
  "amulet_active (loop_pre_msg obs s) = amulet_active s"
  "amulet_pool (loop_pre_msg obs s) = amulet_pool s"
  "amulet_info (loop_pre_msg obs s) = amulet_info s"
  "amulet_draw_ids (loop_pre_msg obs s) = amulet_draw_ids s"
  "amulet_replace_ids (loop_pre_msg obs s) = amulet_replace_ids s"
  "amulet_desktop_remain (loop_pre_msg obs s) = amulet_desktop_remain s"
  "amulet_replace_cursor (loop_pre_msg obs s) = amulet_replace_cursor s"
  by (simp_all add: loop_pre_msg_def Let_def create_bot_def create_mitm_and_proxinject_def)

lemma loop_post_msg_amulet:
  "amulet_active (loop_post_msg obs s) = amulet_active s"
  "amulet_pool (loop_post_msg obs s) = amulet_pool s"
  "amulet_info (loop_post_msg obs s) = amulet_info s"
  "amulet_draw_ids (loop_post_msg obs s) = amulet_draw_ids s"
  "amulet_replace_ids (loop_post_msg obs s) = amulet_replace_ids s"
  "amulet_desktop_remain (loop_post_msg obs s) = amulet_desktop_remain s"
  "amulet_replace_cursor (loop_post_msg obs s) = amulet_replace_cursor s"
  by (simp_all add: loop_post_msg_def Let_def log_call_def)

lemma iteration_amulet:
  assumes "process_msg ext (loop_pre_msg obs s) msg = Done s'"
  shows "amulet_active (iteration ext obs s (Some msg)) = amulet_active s'"
    "amulet_pool (iteration ext obs s (Some msg)) = amulet_pool s'"
    "amulet_info (iteration ext obs s (Some msg)) = amulet_info s'"
    "amulet_draw_ids (iteration ext obs s (Some msg)) = amulet_draw_ids s'"
    "amulet_replace_ids (iteration ext obs s (Some msg)) = amulet_replace_ids s'"
    "amulet_desktop_remain (iteration ext obs s (Some msg)) = amulet_desktop_remain s'"
    "amulet_replace_cursor (iteration ext obs s (Some msg)) = amulet_replace_cursor s'"
  by (simp_all add: iteration_def Let_def assms loop_post_msg_amulet)

lemma sample_stage2_info:
  "fetch_info sample_ext info sample_stage2_data
   = info\<lparr>stage := JInt 2, hands := JList [], ended := False\<rparr>"
  by (simp add: fetch_info_def sample_stage2_data_def sample_round_def py_or_def Let_def)

lemma sample_stage2_msg:
  "\<exists>s'. process_msg sample_ext s sample_stage2_frame = Done s'
     \<and> amulet_active s' \<and> amulet_pool s' = JList sample_pool
     \<and> amulet_draw_ids s' = map int [23..<59]
     \<and> amulet_replace_ids s' = map int [59..<108]
     \<and> stage (amulet_info s') = JInt 2
     \<and> amulet_desktop_remain s' = 0 \<and> amulet_replace_cursor s' = 0"
proof -
  have ne: "sample_pool \<noteq> []"
    using sample_pool_length by auto
  have "amulet_on_fetch_data sample_ext (s\<lparr>amulet_active := True\<rparr>) sample_stage2_data
      = Done ((s\<lparr>amulet_active := True\<rparr>)\<lparr>amulet_pool := JList sample_pool,
              amulet_draw_ids := map int [23..<59],
              amulet_replace_ids := map int [59..<108],
              amulet_info := (amulet_info s)\<lparr>stage := JInt 2, hands := JList [], ended := False\<rparr>,
              amulet_used_ids := {}, amulet_desktop_remain := 0, amulet_replace_cursor := 0\<rparr>)"
    by (simp add: amulet_on_fetch_data_def sample_stage2_data_def sample_round_def py_or_def ne
        set_pool_records [OF sample_pool_records] sample_pool_slices int_set_of_def
        sample_stage2_info [unfolded sample_stage2_data_def sample_round_def])
  then show ?thesis
    using sample_fetch_routed
    by (simp add: process_msg_def process_amulet_msg_def sample_stage2_frame_def response_def)
qed


lemma sample_replacing_state:
  "amulet_active sample_replacing"
  "amulet_pool sample_replacing = JList sample_pool"
  "amulet_replace_ids sample_replacing = map int [59..<108]"
  "stage (amulet_info sample_replacing) = JInt 2"
  "amulet_replace_cursor sample_replacing = 1000"
proof -
  obtain s1 where s1: "process_msg sample_ext (loop_pre_msg sample_obs init) sample_stage2_frame
      = Done s1"
    and f1: "amulet_pool s1 = JList sample_pool" "amulet_replace_ids s1 = map int [59..<108]"
      "stage (amulet_info s1) = JInt 2"
    using sample_stage2_msg [of "loop_pre_msg sample_obs init"] by blast
  define t where "t = iteration sample_ext sample_obs init (Some sample_stage2_frame)"
  have t: "amulet_pool t = JList sample_pool" "amulet_replace_ids t = map int [59..<108]"
    "stage (amulet_info t) = JInt 2"
    unfolding t_def by (simp_all add: iteration_amulet [OF s1] f1)
  have m: "process_msg sample_ext (loop_pre_msg sample_obs t) sample_history_frame
      = Done ((loop_pre_msg sample_obs t)\<lparr>amulet_active := True, amulet_replace_cursor := 1000\<rparr>)"
    by (rule sample_history_msg)
  have r: "sample_replacing = iteration sample_ext sample_obs t (Some sample_history_frame)"
    by (simp add: sample_replacing_def t_def)
  show "amulet_active sample_replacing"
    "amulet_pool sample_replacing = JList sample_pool"
    "amulet_replace_ids sample_replacing = map int [59..<108]"
    "stage (amulet_info sample_replacing) = JInt 2"
    "amulet_replace_cursor sample_replacing = 1000"
    unfolding r by (simp_all add: iteration_amulet [OF m] loop_pre_msg_amulet t)
qed

lemma sample_replacing_reachable: "reachable sample_ext sample_replacing"
  unfolding sample_replacing_def by (intro reach_iteration reach_init)

lemma sample_queue:
  "map (\<lambda>i. as_emoji sample_ext (tile_of (build_id2tile sample_ext sample_pool Map.empty) i))
     (map int [59..<108]) = replicate 49 ''1m''"
proof -
  have one: "as_emoji sample_ext
      (tile_of (build_id2tile sample_ext sample_pool Map.empty) (int k)) = ''1m''"
    if "k \<in> set [59..<108]" for k
  proof -
    from that have "59 \<le> k" "k < 108" by (simp_all only: set_upt atLeastLessThan_iff)
    then show ?thesis by (simp add: sample_pool_tile as_emoji_def sample_ext_def)
  qed
  have "map (\<lambda>k. as_emoji sample_ext
        (tile_of (build_id2tile sample_ext sample_pool Map.empty) (int k))) [59..<108]
      = map (\<lambda>k. ''1m'') [59..<108]"
    by (rule map_cong [OF refl]) (rule one)
  also have "\<dots> = replicate (length [59..<108]) ''1m''"
    by (rule map_replicate_const)
  also have "length [59..<108] = 49"
    by (simp only: length_upt)
  finally show ?thesis
    by (simp only: map_map o_def)
qed

text \<open>
  C5, as stated, fails: after one loop iteration that processes an operate response
  whose replacement history has 1000 entries, the state is reachable and the query
  \<open>get_amulet_replace_cursor\<close> returns 1000, outside \<open>[0, 49]\<close>.
\<close>

theorem replace_cursor_query_counterexample:
  "reachable sample_ext (iteration sample_ext sample_obs init (Some sample_history_frame))
   \<and> get_amulet_replace_cursor
        (iteration sample_ext sample_obs init (Some sample_history_frame)) = 1000
   \<and> \<not> get_amulet_replace_cursor
        (iteration sample_ext sample_obs init (Some sample_history_frame)) \<le> 49"
  using reach_iteration [OF reach_init, of sample_ext sample_obs "Some sample_history_frame"]
  by (simp add: get_amulet_replace_cursor_def sample_history_state)

text \<open>
  C5, amended. In every reachable state the replace-queue view clamps the cursor it
  renders: with \<open>n\<close> the length of \<open>ReplaceQueue\<close> (at most 49) and \<open>c\<close> the stored
  \<open>ReplaceCursor\<close> clamped into \<open>[0, n]\<close>, the view of an active subsystem with a pool,
  a non-empty queue and stage 2 never raises and is the header \<open>[... c/n]\<close>, a line
  break, and the queue's symbols with the cursor bar put in at position \<open>c\<close>; in every
  other state the view is the empty string. With a full queue of 49 ids a stored cursor of
  49 or more (a history of length 1000) renders as 49. The query
  \<open>get_amulet_replace_cursor\<close> returns the stored cursor as it is, unclamped.
\<close>

theorem replace_cursor_clamped_in_view:
  assumes "reachable ext s"
  shows "(let n = length (amulet_replace_ids s);
              c = nat (max 0 (min (amulet_replace_cursor s) (int n)));
              shown = (amulet_active s \<and> truthy (amulet_pool s) \<and> amulet_replace_ids s \<noteq> []
                       \<and> py_int ext (stage (amulet_info s)) = Inr 2)
          in c \<le> n \<and> n \<le> 49
             \<and> (n = 49 \<and> 49 \<le> amulet_replace_cursor s \<longrightarrow> c = 49)
             \<and> (shown \<longrightarrow>
                  (\<exists>objs. py_iter (amulet_pool s) = Inr objs
                     \<and> get_amulet_replace_text ext s =
                         Inr (label_replace @ show_nat c @ ''/'' @ show_nat n @ '']'' @ newline
                              @ str_join '' ''
                                  (take c (map (\<lambda>i. as_emoji ext
                                       (tile_of (build_id2tile ext objs Map.empty) i))
                                     (amulet_replace_ids s))
                                   @ [cursor_bar]
                                   @ drop c (map (\<lambda>i. as_emoji ext
                                       (tile_of (build_id2tile ext objs Map.empty) i))
                                     (amulet_replace_ids s))))))
             \<and> (\<not> shown \<longrightarrow> get_amulet_replace_text ext s = Inr []))
     \<and> get_amulet_replace_cursor s = amulet_replace_cursor s"
proof -
  have inv: "amulet_inv s" using assms by (rule reachable_inv)
  then have len: "length (amulet_replace_ids s) \<le> 49" and pk: "pool_ok (amulet_pool s)"
    by (simp_all add: amulet_inv_def)
  define n where "n = length (amulet_replace_ids s)"
  define c where "c = nat (max 0 (min (amulet_replace_cursor s) (int n)))"
  have sc: "shown_cursor s = c"
    using shown_cursor_clamp [of s] unfolding c_def n_def by simp
  have a: "c \<le> n" unfolding c_def by simp
  have b: "n = 49 \<and> 49 \<le> amulet_replace_cursor s \<longrightarrow> c = 49"
    unfolding c_def by auto
  have hide: "get_amulet_replace_text ext s = Inr []"
    if "\<not> (amulet_active s \<and> truthy (amulet_pool s) \<and> amulet_replace_ids s \<noteq> []
          \<and> py_int ext (stage (amulet_info s)) = Inr 2)"
    using that
    by (auto simp: get_amulet_replace_text_def Let_def split: sum.splits)
  have shown: "\<exists>objs. py_iter (amulet_pool s) = Inr objs
      \<and> get_amulet_replace_text ext s =
          Inr (label_replace @ show_nat c @ ''/'' @ show_nat n @ '']'' @ newline
               @ str_join '' ''
                   (take c (map (\<lambda>i. as_emoji ext
                        (tile_of (build_id2tile ext objs Map.empty) i)) (amulet_replace_ids s))
                    @ [cursor_bar]
                    @ drop c (map (\<lambda>i. as_emoji ext
                        (tile_of (build_id2tile ext objs Map.empty) i)) (amulet_replace_ids s))))"
    if act: "amulet_active s" and tr: "truthy (amulet_pool s)"
      and ne: "amulet_replace_ids s \<noteq> []"
      and st: "py_int ext (stage (amulet_info s)) = Inr 2"
  proof -
    obtain objs where o: "py_iter (amulet_pool s) = Inr objs"
      using pool_ok_iter [OF pk tr] by blast
    show ?thesis
      using act tr ne st
      by (simp add: get_amulet_replace_text_def Let_def o sc n_def o_def)
  qed
  show ?thesis
    using a b len hide shown
    unfolding Let_def n_def [symmetric] c_def [symmetric]
    by (simp add: get_amulet_replace_cursor_def n_def)
qed

theorem replace_cursor_clamped_in_view_witness:
  "reachable sample_ext sample_replacing
   \<and> amulet_replace_cursor sample_replacing = 1000
   \<and> length (amulet_replace_ids sample_replacing) = 49
   \<and> get_amulet_replace_text sample_ext sample_replacing
       = Inr (label_replace @ ''49/49]'' @ newline
              @ str_join '' '' (replicate 49 ''1m'' @ [cursor_bar]))
   \<and> get_amulet_replace_cursor sample_replacing = 1000"
proof -
  note st = sample_replacing_state
  have n: "length (amulet_replace_ids sample_replacing) = 49"
    by (simp only: st length_map length_upt)
  have ne: "amulet_replace_ids sample_replacing \<noteq> []"
    using n by auto
  have q: "map (\<lambda>i. as_emoji sample_ext
        (tile_of (build_id2tile sample_ext sample_pool Map.empty) i))
      (amulet_replace_ids sample_replacing) = replicate 49 ''1m''"
    by (simp only: st sample_queue)
  have sh: "py_int sample_ext (stage (amulet_info sample_replacing)) = Inr 2"
    by (simp add: st)
  have tr: "truthy (amulet_pool sample_replacing)"
    using sample_pool_length by (auto simp: st)
  have it: "py_iter (amulet_pool sample_replacing) = Inr sample_pool"
    by (simp add: st)
  show ?thesis
    using replace_cursor_clamped_in_view [OF sample_replacing_reachable]
    by (simp add: Let_def n ne q sh tr it st(1,5) char_of_eq_iff sample_replacing_reachable)
qed

section \<open>Rows of nine\<close>

lemma nine_ge: "i < n \<Longrightarrow> (n - i) mod 9 = 0 \<Longrightarrow> i + 9 \<le> n" for n :: nat
proof -
  assume lt: "i < n" and m: "(n - i) mod 9 = 0"
  from m have "9 dvd (n - i)" by (simp add: dvd_eq_mod_eq_0)
  moreover from lt have "0 < n - i" by simp
  ultimately have "9 \<le> n - i" by (rule dvd_imp_le)
  with lt show ?thesis by simp
qed

lemma nine_mod: "i + 9 \<le> n \<Longrightarrow> (n - i) mod 9 = 0 \<Longrightarrow> (n - (i + 9)) mod 9 = 0" for n :: nat
proof -
  assume ge: "i + 9 \<le> n" and m: "(n - i) mod 9 = 0"
  define d where "d = n - i"
  from ge have d9: "9 \<le> d" unfolding d_def by simp
  have eq: "n - (i + 9) = d - 9" unfolding d_def by simp
  from d9 have "d mod 9 = (d - 9) mod 9" by (rule le_mod_geq)
  with m show ?thesis unfolding eq d_def by simp
qed

lemma nine_step: "i + 9 \<le> n \<Longrightarrow> (n - i) div 9 = Suc ((n - (i + 9)) div 9)" for n :: nat
proof -
  assume ge: "i + 9 \<le> n"
  define k where "k = n - (i + 9)"
  from ge have "n - i = k + 9" unfolding k_def by simp
  then have "(n - i) div 9 = (k + 9) div 9" by (rule arg_cong)
  also have "\<dots> = Suc (k div 9)" by simp
  finally show ?thesis unfolding k_def .
qed

lemma nine_full: "n mod 9 = 0 \<Longrightarrow> (n + 8) div 9 = n div 9" for n :: nat
proof -
  assume m: "n mod 9 = 0"
  then obtain k where n: "n = 9 * k" by (auto simp: dvd_eq_mod_eq_0 [symmetric] elim: dvdE)
  show ?thesis unfolding n by simp
qed

lemma nine_rest_eq: "n - n mod 9 = 9 * (n div 9)" for n :: nat
  by (simp add: minus_mod_eq_mult_div)

lemma nine_rest: "n mod 9 \<noteq> 0 \<Longrightarrow> Suc ((n - n mod 9) div 9) = (n + 8) div 9" for n :: nat
proof -
  assume m: "n mod 9 \<noteq> 0"
  define q where "q = n div 9"
  define r where "r = n mod 9"
  have n: "n = 9 * q + r" unfolding q_def r_def by simp
  have r9: "r < 9" unfolding r_def by simp
  from m have r0: "0 < r" unfolding r_def by simp
  have "(r + 8) div 9 = 1" using r9 r0 by (simp add: div_nat_eqI)
  moreover have "(9 * q + r + 8) div 9 = q + (r + 8) div 9"
    by (simp add: add.assoc)
  ultimately have "(n + 8) div 9 = Suc q" unfolding n by simp
  moreover have "(n - n mod 9) div 9 = q" unfolding nine_rest_eq q_def by simp
  ultimately show ?thesis by simp
qed

lemma nine_rest_mod: "(n - n mod 9) mod 9 = 0" for n :: nat
  unfolding nine_rest_eq by simp


lemma chunk_loop_step:
  "i < length seq \<Longrightarrow> chunk_loop seq i = take 9 (drop i seq) # chunk_loop seq (i + 9)"
  by (subst chunk_loop.simps) (simp del: chunk_loop.simps)

lemma chunk_loop_done: "\<not> i < length seq \<Longrightarrow> chunk_loop seq i = []"
  by (subst chunk_loop.simps) (simp del: chunk_loop.simps)

lemma concat_chunk_loop: "concat (chunk_loop seq i) = drop i seq"
proof (induction seq i rule: chunk_loop.induct)
  case (1 seq i)
  show ?case
  proof (cases "i < length seq")
    case True
    have "take 9 (drop i seq) @ drop (i + 9) seq = drop i seq"
      using append_take_drop_id [of 9 "drop i seq"] by (simp add: add.commute)
    with True "1" show ?thesis
      by (simp add: chunk_loop_step del: chunk_loop.simps)
  next
    case False
    then show ?thesis by (simp add: chunk_loop_done del: chunk_loop.simps)
  qed
qed

lemma chunk_loop_rows:
  "i \<le> length seq \<Longrightarrow> (length seq - i) mod 9 = 0 \<Longrightarrow>
     (\<forall>row\<in>set (chunk_loop seq i). length row = 9)
     \<and> length (chunk_loop seq i) = (length seq - i) div 9"
proof (induction seq i rule: chunk_loop.induct)
  case (1 seq i)
  show ?case
  proof (cases "i < length seq")
    case True
    have ge: "i + 9 \<le> length seq"
      using True "1.prems"(2) by (rule nine_ge)
    have m: "(length seq - (i + 9)) mod 9 = 0"
      using ge "1.prems"(2) by (rule nine_mod)
    have d: "(length seq - i) div 9 = Suc ((length seq - (i + 9)) div 9)"
      using ge by (rule nine_step)
    have l: "length (take 9 (drop i seq)) = 9" using ge by simp
    define rest where "rest = chunk_loop seq (i + 9)"
    have ih: "(\<forall>row\<in>set rest. length row = 9)
        \<and> length rest = (length seq - (i + 9)) div 9"
      unfolding rest_def using "1.IH" [OF True ge m] .
    have unf: "chunk_loop seq i = take 9 (drop i seq) # rest"
      unfolding rest_def using True by (rule chunk_loop_step)
    show ?thesis
      unfolding unf d using ih l by simp
  next
    case False
    with "1.prems" have i: "i = length seq" by simp
    have "chunk_loop seq i = []" using False by (rule chunk_loop_done)
    then show ?thesis unfolding i by simp
  qed
qed

lemma chunk_by9_concat: "concat (chunk_by9_tail_first seq) = seq"
  by (simp add: chunk_by9_tail_first_def Let_def concat_chunk_loop del: chunk_loop.simps)

lemma chunk_by9_rows:
  assumes "seq \<noteq> []"
  shows "length (chunk_by9_tail_first seq) = (length seq + 8) div 9
      \<and> length (hd (chunk_by9_tail_first seq))
         = (if length seq mod 9 = 0 then 9 else length seq mod 9)
      \<and> (\<forall>row\<in>set (tl (chunk_by9_tail_first seq)). length row = 9)"
proof (cases "length seq mod 9 = 0")
  case True
  define rows where "rows = chunk_loop seq 0"
  have r: "(\<forall>row\<in>set rows. length row = 9) \<and> length rows = (length seq - 0) div 9"
    unfolding rows_def by (rule chunk_loop_rows) (use True in simp_all)
  have eq: "chunk_by9_tail_first seq = rows"
    using True by (simp add: chunk_by9_tail_first_def Let_def rows_def del: chunk_loop.simps)
  have pos: "0 < length seq" using assms by simp
  have "rows = take 9 (drop 0 seq) # chunk_loop seq (0 + 9)"
    unfolding rows_def using pos by (rule chunk_loop_step)
  then have ne: "rows \<noteq> []" by (simp del: chunk_loop.simps)
  then have hd: "hd rows \<in> set rows" by simp
  have tl: "\<And>row. row \<in> set (tl rows) \<Longrightarrow> row \<in> set rows"
    using ne by (rule list.set_sel(2))
  have n: "(length seq + 8) div 9 = length seq div 9"
    using True by (rule nine_full)
  show ?thesis
    unfolding eq n using r hd tl True by auto
next
  case False
  define k where "k = length seq mod 9"
  define rows where "rows = chunk_loop seq k"
  have le: "k \<le> length seq" unfolding k_def by simp
  have m: "(length seq - k) mod 9 = 0" unfolding k_def by (rule nine_rest_mod)
  have r: "(\<forall>row\<in>set rows. length row = 9) \<and> length rows = (length seq - k) div 9"
    unfolding rows_def using le m by (rule chunk_loop_rows)
  have eq: "chunk_by9_tail_first seq = take k seq # rows"
    using False
    by (simp add: chunk_by9_tail_first_def Let_def rows_def k_def del: chunk_loop.simps)
  have n: "Suc ((length seq - k) div 9) = (length seq + 8) div 9"
    unfolding k_def using False by (rule nine_rest)
  have h: "length (take k seq) = k" using le by simp
  show ?thesis
    unfolding eq using r n h False by (simp add: k_def)
qed

section \<open>The tally\<close>

lemma counter_add_map_of:
  "map_of (counter_add k c) t
   = (if t = k then Some (case map_of c k of None \<Rightarrow> 1 | Some n \<Rightarrow> n + 1) else map_of c t)"
  by (induction c) auto

lemma counter_add_keys: "set (map fst (counter_add k c)) = insert k (set (map fst c))"
  by (induction k c rule: counter_add.induct) (auto simp: insert_commute)

lemma counter_add_distinct: "distinct (map fst c) \<Longrightarrow> distinct (map fst (counter_add k c))"
proof (induction c)
  case Nil
  show ?case by simp
next
  case (Cons p c)
  obtain k' n where p: "p = (k', n)" by (cases p)
  from Cons show ?case
    using counter_add_keys [of k c] by (auto simp: p)
qed

lemma counter_snoc: "counter (xs @ [x]) = counter_add x (counter xs)"
  by (simp add: counter_def)

lemma counter_spec:
  "distinct (map fst (counter xs))
   \<and> (\<forall>t. map_of (counter xs) t
          = (if t \<in> set xs then Some (count_list xs t) else None))"
proof (induction xs rule: rev_induct)
  case Nil
  show ?case by (simp add: counter_def)
next
  case (snoc x xs)
  have d: "distinct (map fst (counter (xs @ [x])))"
    unfolding counter_snoc using snoc by (simp add: counter_add_distinct)
  have m: "map_of (counter (xs @ [x])) t
      = (if t \<in> set (xs @ [x]) then Some (count_list (xs @ [x]) t) else None)" for t
    unfolding counter_snoc counter_add_map_of using snoc
    by (auto simp: count_list_0_iff)
  from d m show ?case by blast
qed

lemma counter_entries:
  "(t, n) \<in> set (counter xs) \<longleftrightarrow> t \<in> set xs \<and> n = count_list xs t"
proof -
  have d: "distinct (map fst (counter xs))"
    using counter_spec [of xs] by simp
  have "map_of (counter xs) t = Some n \<longleftrightarrow> (t, n) \<in> set (counter xs)"
    using d by (rule map_of_eq_Some_iff)
  moreover have "map_of (counter xs) t
      = (if t \<in> set xs then Some (count_list xs t) else None)"
    using counter_spec [of xs] by simp
  ultimately show ?thesis
    by (cases "t \<in> set xs") auto
qed

lemma tally_spec:
  "sorted (map fst (sort_key fst (counter xs)))
   \<and> distinct (map fst (sort_key fst (counter xs)))
   \<and> set (map fst (sort_key fst (counter xs))) = set xs
   \<and> (\<forall>(t, n)\<in>set (sort_key fst (counter xs)). n = count_list xs t)"
proof -
  have d: "distinct (map fst (counter xs))"
    using counter_spec [of xs] by simp
  have "distinct (map fst (sort_key fst (counter xs)))"
    using d by (simp add: distinct_map)
  moreover have "set (map fst (sort_key fst (counter xs))) = set xs"
  proof -
    have "fst ` set (counter xs) = set xs"
    proof (intro set_eqI iffI)
      fix t
      assume "t \<in> fst ` set (counter xs)"
      then obtain n where "(t, n) \<in> set (counter xs)" by auto
      then show "t \<in> set xs" by (simp add: counter_entries)
    next
      fix t
      assume "t \<in> set xs"
      then have "(t, count_list xs t) \<in> set (counter xs)" by (simp add: counter_entries)
      then show "t \<in> fst ` set (counter xs)" by force
    qed
    then show ?thesis by simp
  qed
  moreover have "\<forall>(t, n)\<in>set (sort_key fst (counter xs)). n = count_list xs t"
    by (auto simp: counter_entries)
  ultimately show ?thesis by simp
qed

section \<open>The drawable text\<close>

lemma all_rows_nine:
  assumes "rows \<noteq> []" and "length (hd rows) = 9" and "\<forall>row\<in>set (tl rows). length row = 9"
  shows "\<forall>row\<in>set rows. length row = 9"
proof -
  from assms(1) obtain r rs where "rows = r # rs" by (cases rows) auto
  with assms(2,3) show ?thesis by simp
qed

lemma drawable_text_shape:
  assumes a: "amulet_active s" and p: "amulet_pool s = JList objs" and l: "length objs = 108"
    and d: "length (amulet_draw_ids s) = 36"
    and N_def: "N = nat (max 0 (min (amulet_desktop_remain s) 36))"
    and tiles_def: "tiles = map (tile_of (build_id2tile ext objs Map.empty))
      (drop (36 - N) (amulet_draw_ids s))"
  shows "N = 0 \<Longrightarrow> get_amulet_drawable_text ext s = Inr (label_drawable @ ''0/36]'')"
    and "1 \<le> N \<Longrightarrow> get_amulet_drawable_text ext s =
        Inr (str_join newline
          ([label_drawable @ show_nat N @ ''/36]'']
           @ map (\<lambda>row. str_join '' '' (map (as_emoji ext) row)) (chunk_by9_tail_first tiles)
           @ [str_join '' '' (map (\<lambda>(t, n). as_emoji ext t @ times_sign @ show_nat n)
                (sort_key fst (counter tiles)))]))"
    and "length tiles = N"
proof -
  have ne: "objs \<noteq> []" "amulet_draw_ids s \<noteq> []" using l d by auto
  have dr: "drawable_remain s = N"
    by (simp add: drawable_remain_def d N_def)
  have rt: "remain_tiles ext s objs = tiles"
    by (simp add: remain_tiles_def Let_def dr d tiles_def)
  have n36: "N \<le> 36" by (simp add: N_def)
  show "length tiles = N"
    using n36 by (simp add: tiles_def d)
  show "get_amulet_drawable_text ext s = Inr (label_drawable @ ''0/36]'')" if "N = 0"
    using that
    by (simp add: get_amulet_drawable_text_def a p ne dr Let_def
        del: show_nat.simps chunk_loop.simps)
  show "get_amulet_drawable_text ext s =
        Inr (str_join newline
          ([label_drawable @ show_nat N @ ''/36]'']
           @ map (\<lambda>row. str_join '' '' (map (as_emoji ext) row)) (chunk_by9_tail_first tiles)
           @ [str_join '' '' (map (\<lambda>(t, n). as_emoji ext t @ times_sign @ show_nat n)
                (sort_key fst (counter tiles)))]))" if "1 \<le> N"
  proof -
    from that have nz: "N \<noteq> 0" by simp
    show ?thesis
      by (simp only: get_amulet_drawable_text_def a p ne dr rt Let_def stat_line_def
          truthy.simps py_iter.simps nz simp_thms if_True if_False not_True_eq_False
          not_False_eq_True sum.case)
  qed
qed

lemma mixed_pool_length: "length sample_mixed_pool = 108"
  by (simp add: sample_mixed_pool_def)

lemma mixed_pool_records: "\<forall>x\<in>set sample_mixed_pool. tile_id x \<noteq> None"
  by (auto simp: sample_mixed_pool_def tile_rec_def)

lemma mixed_pool_slices:
  "map (\<lambda>x. the (tile_id x)) (take 49 (drop 59 sample_mixed_pool)) = map int [59..<108]"
  "map (\<lambda>x. the (tile_id x)) (take 36 (drop 23 sample_mixed_pool)) = map int [23..<59]"
  by (simp_all add: sample_mixed_pool_def drop_map take_map tile_rec_def o_def)

lemma build_id2tile_by_index:
  "build_id2tile ext (map (\<lambda>k. tile_rec (int k) (g k)) ks) m (int j)
   = (if j \<in> set ks then Some (g j) else m (int j))"
  by (induction ks arbitrary: m) (auto simp: id2tile_entry_rec)

lemma mixed_pool_tile:
  assumes "j < 108"
  shows "tile_of (build_id2tile ext sample_mixed_pool Map.empty) (int j) = sample_tiles j"
proof -
  have "j \<in> set [0..<108]"
    unfolding set_upt atLeastLessThan_iff using assms by simp
  then show ?thesis
    by (simp add: tile_of_def sample_mixed_pool_def build_id2tile_by_index del: set_upt)
qed

lemma py_or_int: "py_int ext (py_or (JInt r) (JInt 0)) = Inr r"
  by (simp add: py_or_def)

lemma sample_draw_msg:
  "\<exists>s'. process_msg sample_ext s (sample_draw_frame r) = Done s'
     \<and> amulet_active s' \<and> amulet_pool s' = JList sample_mixed_pool
     \<and> amulet_draw_ids s' = map int [23..<59]
     \<and> amulet_desktop_remain s' = r"
proof -
  have ne: "sample_mixed_pool \<noteq> []"
    using mixed_pool_length by auto
  have "\<exists>s'. amulet_on_fetch_data sample_ext (s\<lparr>amulet_active := True\<rparr>) (sample_draw_data r)
      = Done s'
     \<and> amulet_active s' \<and> amulet_pool s' = JList sample_mixed_pool
     \<and> amulet_draw_ids s' = map int [23..<59]
     \<and> amulet_desktop_remain s' = r"
    by (simp add: amulet_on_fetch_data_def sample_draw_data_def py_or_def ne
        set_pool_records [OF mixed_pool_records] mixed_pool_slices int_set_of_def
        py_or_int [unfolded py_or_def] Let_def)
  then show ?thesis
    using sample_fetch_routed
    by (simp add: process_msg_def process_amulet_msg_def sample_draw_frame_def response_def)
qed

lemma sample_drawing_state:
  "amulet_active (sample_drawing r)"
  "amulet_pool (sample_drawing r) = JList sample_mixed_pool"
  "amulet_draw_ids (sample_drawing r) = map int [23..<59]"
  "amulet_desktop_remain (sample_drawing r) = r"
proof -
  obtain s1 where s1: "process_msg sample_ext (loop_pre_msg sample_obs init) (sample_draw_frame r)
      = Done s1"
    and f1: "amulet_active s1" "amulet_pool s1 = JList sample_mixed_pool"
      "amulet_draw_ids s1 = map int [23..<59]" "amulet_desktop_remain s1 = r"
    using sample_draw_msg [of "loop_pre_msg sample_obs init" r] by blast
  show "amulet_active (sample_drawing r)"
    "amulet_pool (sample_drawing r) = JList sample_mixed_pool"
    "amulet_draw_ids (sample_drawing r) = map int [23..<59]"
    "amulet_desktop_remain (sample_drawing r) = r"
    unfolding sample_drawing_def by (simp_all add: iteration_amulet [OF s1] f1)
qed

lemma sample_drawing_reachable: "reachable sample_ext (sample_drawing r)"
  unfolding sample_drawing_def by (intro reach_iteration reach_init)

lemma sample_last_tiles:
  assumes "k \<le> 36"
  shows "map (tile_of (build_id2tile ext sample_mixed_pool Map.empty))
      (drop (36 - k) (amulet_draw_ids (sample_drawing r))) = map sample_tiles [59 - k..<59]"
proof -
  have "drop (36 - k) (map int [23..<59]) = map int [59 - k..<59]"
    using assms by (simp only: drop_map drop_upt) simp
  moreover have "map (tile_of (build_id2tile ext sample_mixed_pool Map.empty))
      (map int [59 - k..<59]) = map sample_tiles [59 - k..<59]"
    unfolding map_map o_def
  proof (rule map_cong [OF refl])
    fix j assume "j \<in> set [59 - k..<59]"
    then have "j < 108" by (simp only: set_upt atLeastLessThan_iff) simp
    then show "tile_of (build_id2tile ext sample_mixed_pool Map.empty) (int j) = sample_tiles j"
      by (rule mixed_pool_tile)
  qed
  ultimately show ?thesis
    by (simp only: sample_drawing_state)
qed

lemma sample_ten_tiles:
  "map sample_tiles [49..<59]
   = [''2p'', ''3s'', ''1m'', ''2p'', ''3s'', ''1m'', ''2p'', ''3s'', ''1m'', ''2p'']"
  by (simp add: sample_tiles_def)

lemma sample_ten_rows:
  "chunk_by9_tail_first
     [''2p'', ''3s'', ''1m'', ''2p'', ''3s'', ''1m'', ''2p'', ''3s'', ''1m'', ''2p'']
   = [[''2p''], [''3s'', ''1m'', ''2p'', ''3s'', ''1m'', ''2p'', ''3s'', ''1m'', ''2p'']]"
  by (simp add: chunk_by9_tail_first_def Let_def)

lemma sample_ten_tally:
  "sort_key fst (counter
     [''2p'', ''3s'', ''1m'', ''2p'', ''3s'', ''1m'', ''2p'', ''3s'', ''1m'', ''2p''])
   = [(''1m'', 3), (''2p'', 4), (''3s'', 3)]"
  by (simp add: counter_def)


lemma sample_drawing_segment: "length (amulet_draw_ids (sample_drawing r)) = 36"
  by (simp only: sample_drawing_state length_map length_upt)

lemma sample_ten_text:
  "get_amulet_drawable_text sample_ext (sample_drawing 10)
   = Inr (str_join newline
       [label_drawable @ ''10/36]'',
        ''2p'',
        ''3s 1m 2p 3s 1m 2p 3s 1m 2p'',
        ''1m'' @ times_sign @ ''3 2p'' @ times_sign @ ''4 3s'' @ times_sign @ ''3''])"
proof -
  have n: "(10::nat) = nat (max 0 (min (amulet_desktop_remain (sample_drawing 10)) 36))"
    by (simp add: sample_drawing_state)
  have "map sample_tiles [59 - 10..<59]
      = [''2p'', ''3s'', ''1m'', ''2p'', ''3s'', ''1m'', ''2p'', ''3s'', ''1m'', ''2p'']"
    using sample_ten_tiles by simp
  then have t: "[''2p'', ''3s'', ''1m'', ''2p'', ''3s'', ''1m'', ''2p'', ''3s'', ''1m'', ''2p'']
      = map (tile_of (build_id2tile sample_ext sample_mixed_pool Map.empty))
          (drop (36 - 10) (amulet_draw_ids (sample_drawing 10)))"
    using sample_last_tiles [of 10 sample_ext 10] by simp
  have "get_amulet_drawable_text sample_ext (sample_drawing 10) =
        Inr (str_join newline
          ([label_drawable @ show_nat 10 @ ''/36]'']
           @ map (\<lambda>row. str_join '' '' (map (as_emoji sample_ext) row))
               (chunk_by9_tail_first
                  [''2p'', ''3s'', ''1m'', ''2p'', ''3s'', ''1m'', ''2p'', ''3s'', ''1m'', ''2p''])
           @ [str_join '' '' (map (\<lambda>(t, n). as_emoji sample_ext t @ times_sign @ show_nat n)
                (sort_key fst (counter
                  [''2p'', ''3s'', ''1m'', ''2p'', ''3s'', ''1m'', ''2p'', ''3s'', ''1m'', ''2p'']))
                )]))"
    by (rule drawable_text_shape(2) [OF sample_drawing_state(1,2) mixed_pool_length
          sample_drawing_segment n t]) simp
  then show ?thesis
    by (simp add: sample_ten_rows sample_ten_tally as_emoji_def sample_ext_def char_of_eq_iff)
qed

text \<open>
  C6. In an active state whose pool is a list of 108 entries and whose \<open>DrawSegment\<close>
  holds its 36 ids, let \<open>N\<close> be \<open>DesktopRemain\<close> clamped into \<open>[0, 36]\<close> and \<open>tiles\<close> the
  tile symbols of the last \<open>N\<close> ids of \<open>DrawSegment\<close>, looked up in the table built from
  the pool. If \<open>N = 0\<close> the drawable text is the header \<open>0/36\<close> alone. If \<open>N \<ge> 1\<close> the text
  is made of the header \<open>N/36\<close>, one line for each row and one line for the tally,
  where the rows put end to end are exactly \<open>tiles\<close>, there are \<open>(N + 8) div 9\<close> of them,
  the first has \<open>N mod 9\<close> tiles (9 when the remainder is 0) and every later one has 9
  (for \<open>N = 36\<close>: four rows of 9), and the tally lists every symbol of \<open>tiles\<close> once, in
  ascending order of the symbols, each with the number of its occurrences in \<open>tiles\<close>.
\<close>

theorem drawable_text_layout:
  assumes "amulet_active s" and "amulet_pool s = JList objs" and "length objs = 108"
    and "length (amulet_draw_ids s) = 36"
  shows "let N = nat (max 0 (min (amulet_desktop_remain s) 36));
             tiles = map (tile_of (build_id2tile ext objs Map.empty))
                       (drop (36 - N) (amulet_draw_ids s))
         in (N = 0 \<longrightarrow> get_amulet_drawable_text ext s = Inr (label_drawable @ ''0/36]''))
          \<and> (1 \<le> N \<longrightarrow>
               (\<exists>rows tally.
                  get_amulet_drawable_text ext s =
                    Inr (str_join newline
                      ([label_drawable @ show_nat N @ ''/36]'']
                       @ map (\<lambda>row. str_join '' '' (map (as_emoji ext) row)) rows
                       @ [str_join '' ''
                            (map (\<lambda>(t, n). as_emoji ext t @ times_sign @ show_nat n) tally)]))
                  \<and> concat rows = tiles \<and> length tiles = N
                  \<and> length rows = (N + 8) div 9
                  \<and> length (hd rows) = (if N mod 9 = 0 then 9 else N mod 9)
                  \<and> (\<forall>row\<in>set (tl rows). length row = 9)
                  \<and> (N = 36 \<longrightarrow> length rows = 4 \<and> (\<forall>row\<in>set rows. length row = 9))
                  \<and> sorted (map fst tally) \<and> distinct (map fst tally)
                  \<and> set (map fst tally) = set tiles
                  \<and> (\<forall>(t, n)\<in>set tally. n = count_list tiles t)))"
proof -
  define N where "N = nat (max 0 (min (amulet_desktop_remain s) 36))"
  define tiles where "tiles = map (tile_of (build_id2tile ext objs Map.empty))
      (drop (36 - N) (amulet_draw_ids s))"
  note shape = drawable_text_shape [OF assms N_def tiles_def]
  have len: "length tiles = N" by (rule shape(3))
  have layout: "\<exists>rows tally.
      get_amulet_drawable_text ext s =
        Inr (str_join newline
          ([label_drawable @ show_nat N @ ''/36]'']
           @ map (\<lambda>row. str_join '' '' (map (as_emoji ext) row)) rows
           @ [str_join '' ''
                (map (\<lambda>(t, n). as_emoji ext t @ times_sign @ show_nat n) tally)]))
      \<and> concat rows = tiles \<and> length tiles = N
      \<and> length rows = (N + 8) div 9
      \<and> length (hd rows) = (if N mod 9 = 0 then 9 else N mod 9)
      \<and> (\<forall>row\<in>set (tl rows). length row = 9)
      \<and> (N = 36 \<longrightarrow> length rows = 4 \<and> (\<forall>row\<in>set rows. length row = 9))
      \<and> sorted (map fst tally) \<and> distinct (map fst tally)
      \<and> set (map fst tally) = set tiles
      \<and> (\<forall>(t, n)\<in>set tally. n = count_list tiles t)" if pos: "1 \<le> N"
  proof -
    define rows where "rows = chunk_by9_tail_first tiles"
    define tally where "tally = sort_key fst (counter tiles)"
    have ne: "tiles \<noteq> []" using len pos by auto
    have out: "get_amulet_drawable_text ext s =
        Inr (str_join newline
          ([label_drawable @ show_nat N @ ''/36]'']
           @ map (\<lambda>row. str_join '' '' (map (as_emoji ext) row)) rows
           @ [str_join '' ''
                (map (\<lambda>(t, n). as_emoji ext t @ times_sign @ show_nat n) tally)]))"
      unfolding rows_def tally_def using pos by (rule shape(2))
    have cc: "concat rows = tiles"
      unfolding rows_def by (rule chunk_by9_concat)
    have rw: "length rows = (N + 8) div 9"
      "length (hd rows) = (if N mod 9 = 0 then 9 else N mod 9)"
      "\<forall>row\<in>set (tl rows). length row = 9"
      using chunk_by9_rows [OF ne] unfolding rows_def [symmetric] len by blast+
    have full: "N = 36 \<longrightarrow> length rows = 4 \<and> (\<forall>row\<in>set rows. length row = 9)"
    proof
      assume n: "N = 36"
      have four: "length rows = 4" using rw(1) unfolding n by simp
      then have "rows \<noteq> []" by auto
      moreover have "length (hd rows) = 9" using rw(2) unfolding n by simp
      ultimately have "\<forall>row\<in>set rows. length row = 9"
        using rw(3) by (rule all_rows_nine)
      with four show "length rows = 4 \<and> (\<forall>row\<in>set rows. length row = 9)" ..
    qed
    have tl: "sorted (map fst tally)" "distinct (map fst tally)"
      "set (map fst tally) = set tiles" "\<forall>(t, n)\<in>set tally. n = count_list tiles t"
      using tally_spec [of tiles] unfolding tally_def [symmetric] by blast+
    from out cc len rw full tl show ?thesis by blast
  qed
  show ?thesis
    unfolding Let_def N_def [symmetric] tiles_def [symmetric]
    using shape(1) layout by blast
qed

theorem drawable_text_layout_witness:
  "reachable sample_ext (sample_drawing 36)
   \<and> amulet_active (sample_drawing 36)
   \<and> amulet_pool (sample_drawing 36) = JList sample_mixed_pool
   \<and> length sample_mixed_pool = 108
   \<and> length (amulet_draw_ids (sample_drawing 36)) = 36
   \<and> amulet_desktop_remain (sample_drawing 36) = 36
   \<and> (\<exists>rows tally.
        get_amulet_drawable_text sample_ext (sample_drawing 36) =
          Inr (str_join newline
            ([label_drawable @ ''36/36]'']
             @ map (\<lambda>row. str_join '' '' (map (as_emoji sample_ext) row)) rows
             @ [str_join '' ''
                  (map (\<lambda>(t, n). as_emoji sample_ext t @ times_sign @ show_nat n) tally)]))
        \<and> concat rows = map sample_tiles [23..<59]
        \<and> length rows = 4 \<and> (\<forall>row\<in>set rows. length row = 9)
        \<and> sorted (map fst tally) \<and> distinct (map fst tally))
   \<and> amulet_desktop_remain (sample_drawing 0) = 0
   \<and> get_amulet_drawable_text sample_ext (sample_drawing 0) = Inr (label_drawable @ ''0/36]'')
   \<and> amulet_desktop_remain (sample_drawing 10) = 10
   \<and> get_amulet_drawable_text sample_ext (sample_drawing 10)
       = Inr (str_join newline
           [label_drawable @ ''10/36]'',
            ''2p'',
            ''3s 1m 2p 3s 1m 2p 3s 1m 2p'',
            ''1m'' @ times_sign @ ''3 2p'' @ times_sign @ ''4 3s'' @ times_sign @ ''3''])"
proof -
  note st = sample_drawing_state
  have zero: "get_amulet_drawable_text sample_ext (sample_drawing 0)
      = Inr (label_drawable @ ''0/36]'')"
    using drawable_text_layout [OF st(1,2) mixed_pool_length sample_drawing_segment,
        of 0 sample_ext]
    by (simp add: Let_def st)
  have n: "nat (max 0 (min (amulet_desktop_remain (sample_drawing 36)) 36)) = 36"
    by (simp add: st)
  have t: "map (tile_of (build_id2tile sample_ext sample_mixed_pool Map.empty))
      (drop (36 - 36) (amulet_draw_ids (sample_drawing 36))) = map sample_tiles [23..<59]"
    using sample_last_tiles [of 36 sample_ext 36] by simp
  note full = drawable_text_layout [OF st(1,2) mixed_pool_length sample_drawing_segment,
      of 36 sample_ext, unfolded Let_def n t]
  have one: "(1::nat) \<le> 36" by simp
  from full one obtain rows tally where
    r: "get_amulet_drawable_text sample_ext (sample_drawing 36) =
          Inr (str_join newline
            ([label_drawable @ show_nat 36 @ ''/36]'']
             @ map (\<lambda>row. str_join '' '' (map (as_emoji sample_ext) row)) rows
             @ [str_join '' ''
                  (map (\<lambda>(t, n). as_emoji sample_ext t @ times_sign @ show_nat n) tally)]))"
      "concat rows = map sample_tiles [23..<59]"
      "(36::nat) = 36 \<longrightarrow> length rows = 4 \<and> (\<forall>row\<in>set rows. length row = 9)"
      "sorted (map fst tally)" "distinct (map fst tally)"
    by blast
  have h: "show_nat 36 = ''36''"
    by (simp add: char_of_eq_iff)
  have "\<exists>rows tally.
        get_amulet_drawable_text sample_ext (sample_drawing 36) =
          Inr (str_join newline
            ([label_drawable @ ''36/36]'']
             @ map (\<lambda>row. str_join '' '' (map (as_emoji sample_ext) row)) rows
             @ [str_join '' ''
                  (map (\<lambda>(t, n). as_emoji sample_ext t @ times_sign @ show_nat n) tally)]))
        \<and> concat rows = map sample_tiles [23..<59]
        \<and> length rows = 4 \<and> (\<forall>row\<in>set rows. length row = 9)
        \<and> sorted (map fst tally) \<and> distinct (map fst tally)"
    using r unfolding h by (intro exI [of _ rows] exI [of _ tally]) simp
  then show ?thesis
    using zero sample_ten_text sample_drawing_reachable [of 36]
    by (simp only: st(1,2,4) mixed_pool_length sample_drawing_segment simp_thms)
qed

end
